theory Spec2Isabelle
  imports Complex_Main "HOL-Library.Word" "HOL-Library.Signed_Division"
begin

unbundle bit_operations_syntax

section \<open>F4Jumble: the data model\<close>

text \<open>
  The package works on Go byte slices (\<open>[]byte\<close>), modelled as lists of 8-bit words.
  Go's \<open>int\<close> is modelled as a mathematical integer; it is 64 bits wide on the
  platforms Go supports for this package, and the one addition whose operand is not
  bounded by a slice length (in \<open>ceilDiv\<close>) has its two's complement wrap-around
  written out. Integer division \<open>/\<close> truncates towards zero (\<open>sdiv\<close>).
\<close>

type_synonym byte = "8 word"

text \<open>
  What a call can end with instead of a result: the error value built by
  \<open>errors.New("invalid message length")\<close>, an error handed back by
  \<open>blake2b.NewDigest\<close> (propagated unchanged), and the two run-time panics the
  slice operations of the source can raise.
\<close>

datatype error =
    InvalidMessageLength
  | HashError string
  | IndexOutOfRange
  | SliceBoundsOutOfRange

text \<open>
  The BLAKE2b primitive is imported from another module
  (\<open>github.com/gtank/blake2/blake2b\<close>). Every use in the source has the shape
  \<open>NewDigest(nil, nil, pers, n)\<close>, \<open>Write(u)\<close>, \<open>Sum(nil)\<close>, so the primitive is a
  parameter of the model: a function of the personalization, the requested digest
  length and the input, returning the error of \<open>NewDigest\<close> or the digest.
\<close>

type_synonym hash = "byte list \<Rightarrow> int \<Rightarrow> byte list \<Rightarrow> string + byte list"

definition minLenM :: int where "minLenM = 48"
definition maxLenM :: int where "maxLenM = 4194368"
definition lenH :: int where "lenH = 64"

definition wrap_int :: "int \<Rightarrow> int" where
  \<comment> \<open>a mathematical integer read back as a 64-bit two's complement \<open>int\<close>\<close>
  "wrap_int k = signed_take_bit 63 k"

definition ceilDiv :: "int \<Rightarrow> int \<Rightarrow> int" where
  \<comment> \<open>\<open>den\<close> is \<open>lenH\<close> at the only call site, so division by zero is not a branch\<close>
  "ceilDiv num den = wrap_int (num + den - 1) sdiv den"

definition hPers :: "int \<Rightarrow> byte list" where
  "hPers i = [85, 65, 95, 70, 52, 74, 117, 109, 98, 108, 101, 95, 72, word_of_int i, 0, 0]"

definition gPers :: "int \<Rightarrow> int \<Rightarrow> byte list" where
  "gPers i j = [85, 65, 95, 70, 52, 74, 117, 109, 98, 108, 101, 95, 71, word_of_int i,
                word_of_int (j AND 255), word_of_int (drop_bit 8 j)]"

subsection \<open>The XOR helper\<close>

text \<open>
  \<open>result := make([]byte, len(x))\<close>, then \<open>for i := range x\<close>. Inside the guard
  \<open>i <= len(y)\<close> the body reads \<open>y[i]\<close>, which panics when \<open>i = len(y)\<close>; \<open>x[i]\<close>
  and \<open>result[i]\<close> are always in range.
\<close>

function xor_loop :: "byte list \<Rightarrow> byte list \<Rightarrow> nat \<Rightarrow> byte list \<Rightarrow> error + byte list" where
  "xor_loop x y i result =
     (if i < length x then
        (if i \<le> length y then
           (if i < length y then xor_loop x y (i + 1) (result[i := x ! i XOR y ! i])
            else Inl IndexOutOfRange)
         else xor_loop x y (i + 1) result)
      else Inr result)"
  by pat_completeness auto
termination
  by (relation "measure (\<lambda>(x, y, i, result). length x - i)") auto

declare xor_loop.simps [simp del]

definition xor :: "byte list \<Rightarrow> byte list \<Rightarrow> error + byte list" where
  "xor x y = xor_loop x y 0 (replicate (length x) 0)"

subsection \<open>The round functions\<close>

definition inner :: "hash \<Rightarrow> int \<Rightarrow> byte list \<Rightarrow> int \<Rightarrow> error + byte list" where
  "inner h i u j =
     (case h (gPers i j) lenH u of Inl err \<Rightarrow> Inl (HashError err) | Inr g \<Rightarrow> Inr g)"

function gRound_loop ::
  "hash \<Rightarrow> int \<Rightarrow> byte list \<Rightarrow> int \<Rightarrow> int \<Rightarrow> byte list \<Rightarrow> error + byte list" where
  "gRound_loop h i u lenR j result =
     (if j < ceilDiv lenR lenH then
        (case inner h i u j of
           Inl err \<Rightarrow> Inl err
         | Inr hash \<Rightarrow> gRound_loop h i u lenR (j + 1) (result @ hash))
      else Inr result)"
  by pat_completeness auto
termination
  by (relation "measure (\<lambda>(h, i, u, lenR, j, result). nat (ceilDiv lenR lenH - j))") auto

declare gRound_loop.simps [simp del]

text \<open>
  \<open>result[:lenR]\<close> panics when \<open>lenR\<close> is negative or beyond the capacity of
  \<open>result\<close>. The model takes the length for the capacity: the two differ only when
  fewer than \<open>lenR\<close> bytes were appended, which the 64-byte digests exclude.
\<close>

definition gRound :: "hash \<Rightarrow> int \<Rightarrow> byte list \<Rightarrow> int \<Rightarrow> error + byte list" where
  "gRound h i u lenR =
     (case gRound_loop h i u lenR 0 [] of
        Inl err \<Rightarrow> Inl err
      | Inr result \<Rightarrow>
          if 0 \<le> lenR \<and> lenR \<le> int (length result) then Inr (take (nat lenR) result)
          else Inl SliceBoundsOutOfRange)"

definition hRound :: "hash \<Rightarrow> int \<Rightarrow> byte list \<Rightarrow> int \<Rightarrow> error + byte list" where
  "hRound h i u lenL =
     (case h (hPers i) lenL u of Inl err \<Rightarrow> Inl (HashError err) | Inr d \<Rightarrow> Inr d)"

definition min_int :: "int \<Rightarrow> int \<Rightarrow> int" where
  "min_int a b = (if a < b then a else b)"

subsection \<open>The forward and the inverse transform\<close>

text \<open>
  The local variables of one run of \<open>F4Jumble\<close> or \<open>F4JumbleInv\<close>; both functions
  use the same names (here with the prefix \<open>v_\<close>). \<open>M[:lenL]\<close> and
  \<open>M[lenL:]\<close> are \<open>take\<close> and \<open>drop\<close>: after the length check
  \<open>0 \<le> lenL \<le> len(M)\<close>, so neither slice expression can panic.
\<close>

record locals =
  v_lenM :: int
  v_lenL :: int
  v_lenR :: int
  v_a :: "byte list"
  v_b :: "byte list"
  v_c :: "byte list"
  v_d :: "byte list"
  v_g0 :: "byte list"
  v_g1 :: "byte list"
  v_h0 :: "byte list"
  v_h1 :: "byte list"
  v_x :: "byte list"
  v_y :: "byte list"

definition F4Jumble_run :: "hash \<Rightarrow> byte list \<Rightarrow> error + locals" where
  "F4Jumble_run h M =
     (let lenM = int (length M) in
      if lenM < minLenM \<or> lenM > maxLenM then Inl InvalidMessageLength
      else
        let lenL = min_int lenH (lenM sdiv 2);
            lenR = lenM - lenL;
            a = take (nat lenL) M;
            b = drop (nat lenL) M
        in
        case gRound h 0 a lenR of Inl err \<Rightarrow> Inl err | Inr g0 \<Rightarrow>
        case xor b g0 of Inl err \<Rightarrow> Inl err | Inr x \<Rightarrow>
        case hRound h 0 x lenL of Inl err \<Rightarrow> Inl err | Inr h0 \<Rightarrow>
        case xor a h0 of Inl err \<Rightarrow> Inl err | Inr y \<Rightarrow>
        case gRound h 1 y lenR of Inl err \<Rightarrow> Inl err | Inr g1 \<Rightarrow>
        case xor x g1 of Inl err \<Rightarrow> Inl err | Inr d \<Rightarrow>
        case hRound h 1 d lenL of Inl err \<Rightarrow> Inl err | Inr h1 \<Rightarrow>
        case xor y h1 of Inl err \<Rightarrow> Inl err | Inr c \<Rightarrow>
          Inr \<lparr>v_lenM = lenM, v_lenL = lenL, v_lenR = lenR, v_a = a, v_b = b, v_c = c, v_d = d,
               v_g0 = g0, v_g1 = g1, v_h0 = h0, v_h1 = h1, v_x = x, v_y = y\<rparr>)"

definition F4Jumble :: "hash \<Rightarrow> byte list \<Rightarrow> error + byte list" where
  "F4Jumble h M =
     (case F4Jumble_run h M of Inl err \<Rightarrow> Inl err | Inr s \<Rightarrow> Inr (v_c s @ v_d s))"

definition F4JumbleInv_run :: "hash \<Rightarrow> byte list \<Rightarrow> error + locals" where
  "F4JumbleInv_run h M =
     (let lenM = int (length M) in
      if lenM < minLenM \<or> lenM > maxLenM then Inl InvalidMessageLength
      else
        let lenL = min_int lenH (lenM sdiv 2);
            lenR = lenM - lenL;
            c = take (nat lenL) M;
            d = drop (nat lenL) M
        in
        case hRound h 1 d lenL of Inl err \<Rightarrow> Inl err | Inr h1 \<Rightarrow>
        case xor c h1 of Inl err \<Rightarrow> Inl err | Inr y \<Rightarrow>
        case gRound h 1 y lenR of Inl err \<Rightarrow> Inl err | Inr g1 \<Rightarrow>
        case xor d g1 of Inl err \<Rightarrow> Inl err | Inr x \<Rightarrow>
        case hRound h 0 x lenL of Inl err \<Rightarrow> Inl err | Inr h0 \<Rightarrow>
        case xor y h0 of Inl err \<Rightarrow> Inl err | Inr a \<Rightarrow>
        case gRound h 0 a lenR of Inl err \<Rightarrow> Inl err | Inr g0 \<Rightarrow>
        case xor x g0 of Inl err \<Rightarrow> Inl err | Inr b \<Rightarrow>
          Inr \<lparr>v_lenM = lenM, v_lenL = lenL, v_lenR = lenR, v_a = a, v_b = b, v_c = c, v_d = d,
               v_g0 = g0, v_g1 = g1, v_h0 = h0, v_h1 = h1, v_x = x, v_y = y\<rparr>)"

definition F4JumbleInv :: "hash \<Rightarrow> byte list \<Rightarrow> error + byte list" where
  "F4JumbleInv h M =
     (case F4JumbleInv_run h M of Inl err \<Rightarrow> Inl err | Inr s \<Rightarrow> Inr (v_a s @ v_b s))"

subsection \<open>The contract of the hash primitive\<close>

text \<open>
  For a 16-byte personalization and a digest length from 1 to 64 the primitive does
  not fail and returns exactly as many bytes as were asked for.
\<close>

definition hash_contract :: "hash \<Rightarrow> bool" where
  "hash_contract h \<longleftrightarrow>
     (\<forall>p n u. length p = 16 \<and> 1 \<le> n \<and> n \<le> 64 \<longrightarrow>
        (\<exists>dg. h p n u = Inr dg \<and> int (length dg) = n))"

text \<open>A small stand-in primitive for running the model on concrete inputs.\<close>

definition toy_hash :: hash where
  "toy_hash p n u =
     (if n < 1 \<or> n > 64 then Inl ''invalid digest length''
      else Inr (map (\<lambda>k. sum_list p + sum_list u + of_nat k) [0..<nat n]))"

definition ascii :: "string \<Rightarrow> byte list" where
  "ascii s = map of_char s"

text \<open>Concrete messages on which the model is run.\<close>

definition msg48 :: "byte list" where
  "msg48 = map of_nat [0..<48]"

definition toy_jumbled :: "byte list" where
  "toy_jumbled = [23, 20, 17, 30, 27, 24, 21, 18, 31, 28, 25, 230, 227, 224, 253, 250,
      231, 228, 225, 238, 235, 232, 229, 226, 165, 166, 167, 168, 169, 170,
      171, 172, 141, 142, 143, 240, 241, 242, 243, 244, 245, 246, 247, 248,
      249, 250, 251, 252]"

definition toy_unjumbled :: "byte list" where
  "toy_unjumbled = [79, 76, 73, 70, 67, 64, 93, 90, 87, 84, 81, 78, 75, 72, 69, 66, 95,
      92, 89, 86, 83, 80, 109, 106, 93, 94, 95, 80, 81, 82, 83, 84, 101,
      102, 103, 120, 121, 122, 123, 124, 109, 110, 111, 96, 97, 98, 99,
      100]"

subsection \<open>The BLAKE2b primitive\<close>

text \<open>
  Modelled from the spec: the personalized hash primitive of section 6 of the
  specification, which the source imports as \<open>github.com/gtank/blake2/blake2b\<close>; the
  module is not part of the repository. It is BLAKE2b (RFC 7693) with no key and no
  salt, a personalization of at most 16 bytes and a digest length from 1 to 64 bytes.
  A 64-bit word is an integer from 0 to \<open>2^64 - 1\<close>, with the wrap-around of the
  additions and rotations written out. The sixteen words of the working state are held
  as four rows of four; a round mixes the four columns and then the four diagonals.
  Only the known-answer test uses this function: everything else is proved for
  every primitive.
\<close>

type_synonym quad = "int \<times> int \<times> int \<times> int"
type_synonym b2state = "quad \<times> quad \<times> quad \<times> quad"

definition add64 :: "int \<Rightarrow> int \<Rightarrow> int" where
  "add64 a b = take_bit 64 (a + b)"

definition rotr64 :: "nat \<Rightarrow> int \<Rightarrow> int" where
  "rotr64 n w = drop_bit n w OR take_bit 64 (push_bit (64 - n) w)"

definition blake2b_IV :: "int list" where
  "blake2b_IV = [0x6a09e667f3bcc908, 0xbb67ae8584caa73b, 0x3c6ef372fe94f82b, 0xa54ff53a5f1d36f1,
                 0x510e527fade682d1, 0x9b05688c2b3e6c1f, 0x1f83d9abfb41bd6b, 0x5be0cd19137e2179]"

definition blake2b_SIGMA :: "nat list list" where
  "blake2b_SIGMA =
    [
     [0, 1, 2, 3, 4, 5, 6, 7, 8, 9, 10, 11, 12, 13, 14, 15],
     [14, 10, 4, 8, 9, 15, 13, 6, 1, 12, 0, 2, 11, 7, 5, 3],
     [11, 8, 12, 0, 5, 2, 15, 13, 10, 14, 3, 6, 7, 1, 9, 4],
     [7, 9, 3, 1, 13, 12, 11, 14, 2, 6, 5, 10, 4, 0, 15, 8],
     [9, 0, 5, 7, 2, 4, 10, 15, 14, 1, 11, 12, 6, 8, 3, 13],
     [2, 12, 6, 10, 0, 11, 8, 3, 4, 13, 7, 5, 15, 14, 1, 9],
     [12, 5, 1, 15, 14, 13, 4, 10, 0, 7, 6, 3, 9, 2, 8, 11],
     [13, 11, 7, 14, 12, 1, 3, 9, 5, 0, 15, 4, 8, 6, 2, 10],
     [6, 15, 14, 9, 11, 3, 0, 8, 12, 2, 13, 7, 1, 4, 10, 5],
     [10, 2, 8, 4, 7, 6, 1, 5, 15, 11, 9, 14, 3, 12, 13, 0]
    ]"

definition mixG :: "int \<Rightarrow> int \<Rightarrow> int \<Rightarrow> int \<Rightarrow> int \<Rightarrow> int \<Rightarrow> quad" where
  "mixG a b c d x y =
     (let a1 = add64 (add64 a b) x;
          d1 = rotr64 32 (d XOR a1);
          c1 = add64 c d1;
          b1 = rotr64 24 (b XOR c1);
          a2 = add64 (add64 a1 b1) y;
          d2 = rotr64 16 (d1 XOR a2);
          c2 = add64 c1 d2;
          b2 = rotr64 63 (b1 XOR c2)
      in (a2, b2, c2, d2))"

fun regroup :: "quad \<Rightarrow> quad \<Rightarrow> quad \<Rightarrow> quad \<Rightarrow> b2state" where
  "regroup (a0, b0, c0, d0) (a1, b1, c1, d1) (a2, b2, c2, d2) (a3, b3, c3, d3) =
     ((a0, a1, a2, a3), (b0, b1, b2, b3), (c0, c1, c2, c3), (d0, d1, d2, d3))"

fun columns :: "int list \<Rightarrow> b2state \<Rightarrow> b2state" where
  "columns [x0, y0, x1, y1, x2, y2, x3, y3]
           ((a0, a1, a2, a3), (b0, b1, b2, b3), (c0, c1, c2, c3), (d0, d1, d2, d3)) =
     regroup (mixG a0 b0 c0 d0 x0 y0) (mixG a1 b1 c1 d1 x1 y1)
             (mixG a2 b2 c2 d2 x2 y2) (mixG a3 b3 c3 d3 x3 y3)"
| "columns m v = v"

fun diagonalize :: "b2state \<Rightarrow> b2state" where
  "diagonalize (a, (b0, b1, b2, b3), (c0, c1, c2, c3), (d0, d1, d2, d3)) =
     (a, (b1, b2, b3, b0), (c2, c3, c0, c1), (d3, d0, d1, d2))"

fun undiagonalize :: "b2state \<Rightarrow> b2state" where
  "undiagonalize (a, (b1, b2, b3, b0), (c2, c3, c0, c1), (d3, d0, d1, d2)) =
     (a, (b0, b1, b2, b3), (c0, c1, c2, c3), (d0, d1, d2, d3))"

definition blake2b_round :: "int list \<Rightarrow> b2state \<Rightarrow> b2state" where
  "blake2b_round m v =
     undiagonalize (columns (drop 8 m) (diagonalize (columns (take 8 m) v)))"

definition blake2b_rounds :: "int list \<Rightarrow> b2state \<Rightarrow> b2state" where
  "blake2b_rounds m v =
     foldl (\<lambda>v s. blake2b_round (map (\<lambda>i. m ! i) s) v) v (blake2b_SIGMA @ take 2 blake2b_SIGMA)"

definition le64 :: "byte list \<Rightarrow> int" where
  "le64 bs = foldr (\<lambda>b w. uint b + 256 * w) bs 0"

definition bytes_le64 :: "int \<Rightarrow> byte list" where
  "bytes_le64 w = map (\<lambda>k. word_of_int (drop_bit (8 * k) w)) [0..<8]"

definition block_words :: "byte list \<Rightarrow> int list" where
  "block_words blk = map (\<lambda>k. le64 (take 8 (drop (8 * k) blk))) [0..<16]"

fun init_state :: "int list \<Rightarrow> int list \<Rightarrow> int \<Rightarrow> bool \<Rightarrow> b2state" where
  "init_state [h0, h1, h2, h3, h4, h5, h6, h7] [i0, i1, i2, i3, i4, i5, i6, i7] t final =
     ((h0, h1, h2, h3), (h4, h5, h6, h7), (i0, i1, i2, i3),
      (i4 XOR take_bit 64 t, i5 XOR take_bit 64 (drop_bit 64 t),
       (if final then i6 XOR 0xffffffffffffffff else i6), i7))"
| "init_state h iv t final = ((0, 0, 0, 0), (0, 0, 0, 0), (0, 0, 0, 0), (0, 0, 0, 0))"

fun feed_forward :: "int list \<Rightarrow> b2state \<Rightarrow> int list" where
  "feed_forward [h0, h1, h2, h3, h4, h5, h6, h7]
                ((a0, a1, a2, a3), (b0, b1, b2, b3), (c0, c1, c2, c3), (d0, d1, d2, d3)) =
     [h0 XOR a0 XOR c0, h1 XOR a1 XOR c1, h2 XOR a2 XOR c2, h3 XOR a3 XOR c3,
      h4 XOR b0 XOR d0, h5 XOR b1 XOR d1, h6 XOR b2 XOR d2, h7 XOR b3 XOR d3]"
| "feed_forward h v = h"

definition blake2b_compress :: "int list \<Rightarrow> byte list \<Rightarrow> int \<Rightarrow> bool \<Rightarrow> int list" where
  "blake2b_compress h blk t final =
     feed_forward h (blake2b_rounds (block_words blk) (init_state h blake2b_IV t final))"

function blake2b_blocks :: "int list \<Rightarrow> int \<Rightarrow> byte list \<Rightarrow> int list" where
  "blake2b_blocks h t bs =
     (if 128 < length bs
      then blake2b_blocks (blake2b_compress h (take 128 bs) (t + 128) False) (t + 128) (drop 128 bs)
      else blake2b_compress h (bs @ replicate (128 - length bs) 0) (t + int (length bs)) True)"
  by pat_completeness auto
termination
  by (relation "measure (\<lambda>(h, t, bs). length bs)") auto

declare blake2b_blocks.simps [simp del]

definition blake2b :: "byte list \<Rightarrow> int \<Rightarrow> byte list \<Rightarrow> string + byte list" where
  "blake2b pers n u =
     (if n \<le> 0 \<or> 64 < n then Inl ''blake2b: invalid output size''
      else if 16 < length pers then Inl ''blake2b: invalid personalization size''
      else
        let p = pers @ replicate (16 - length pers) 0;
            h = blake2b_IV[0 := blake2b_IV ! 0 XOR 0x01010000 XOR n,
                           6 := blake2b_IV ! 6 XOR le64 (take 8 p),
                           7 := blake2b_IV ! 7 XOR le64 (drop 8 p)]
        in Inr (take (nat n) (concat (map bytes_le64 (blake2b_blocks h 0 u)))))"

subsection \<open>The known-answer example\<close>

text \<open>
  \<open>kat_src\<close> and \<open>kat_jumbled\<close> are the two byte sequences \<open>src\<close> and \<open>jumbled\<close> of
  the example in the doc comments of \<open>F4Jumble\<close> and \<open>F4JumbleInv\<close>. \<open>kat_spec_src\<close> is
  the input as the specification prints it: byte 25 is \<open>0xaa\<close> there and \<open>0xfa\<close> in
  the source. The other sequences are the values of the local variables in the run on
  \<open>kat_src\<close> (\<open>kat_g0\<close> and \<open>kat_g1\<close> are the whole 64-byte blocks).
\<close>

definition kat_src :: "byte list" where
  "kat_src =
    [93, 122, 143, 115, 154, 45, 158, 148, 91, 12, 225, 82,
     168, 4, 158, 41, 76, 77, 110, 102, 177, 100, 147, 157,
     175, 250, 46, 246, 238, 105, 33, 72, 28, 221, 134, 179,
     204, 67, 24, 217, 97, 79, 200, 32, 144, 93, 4, 43]"

definition kat_jumbled :: "byte list" where
  "kat_jumbled =
    [3, 4, 208, 41, 20, 27, 153, 93, 165, 56, 124, 18,
     89, 112, 103, 53, 4, 214, 199, 100, 217, 30, 166, 192,
     130, 18, 55, 112, 199, 19, 156, 205, 136, 238, 39, 54,
     140, 208, 192, 146, 26, 4, 68, 200, 229, 133, 141, 34]"

definition kat_spec_src :: "byte list" where
  "kat_spec_src =
    [93, 122, 143, 115, 154, 45, 158, 148, 91, 12, 225, 82,
     168, 4, 158, 41, 76, 77, 110, 102, 177, 100, 147, 157,
     175, 170, 46, 246, 238, 105, 33, 72, 28, 221, 134, 179,
     204, 67, 24, 217, 97, 79, 200, 32, 144, 93, 4, 43]"

definition kat_a :: "byte list" where
  "kat_a =
    [93, 122, 143, 115, 154, 45, 158, 148, 91, 12, 225, 82,
     168, 4, 158, 41, 76, 77, 110, 102, 177, 100, 147, 157]"

definition kat_b :: "byte list" where
  "kat_b =
    [175, 250, 46, 246, 238, 105, 33, 72, 28, 221, 134, 179,
     204, 67, 24, 217, 97, 79, 200, 32, 144, 93, 4, 43]"

definition kat_g0 :: "byte list" where
  "kat_g0 =
    [160, 210, 181, 155, 80, 111, 56, 30, 72, 127, 95, 241,
     227, 177, 207, 255, 109, 205, 12, 13, 48, 5, 60, 56,
     139, 88, 200, 170, 1, 210, 135, 74, 239, 166, 98, 185,
     143, 148, 205, 224, 29, 49, 221, 18, 242, 92, 225, 40,
     58, 136, 7, 96, 34, 92, 179, 171, 97, 216, 181, 124,
     89, 61, 223, 55]"

definition kat_x :: "byte list" where
  "kat_x =
    [15, 40, 155, 109, 190, 6, 25, 86, 84, 162, 217, 66,
     47, 242, 215, 38, 12, 130, 196, 45, 160, 88, 56, 19]"

definition kat_h0 :: "byte list" where
  "kat_h0 =
    [124, 214, 77, 125, 254, 199, 244, 128, 184, 218, 224, 236,
     69, 145, 172, 228, 210, 77, 68, 113, 99, 99, 128, 87]"

definition kat_y :: "byte list" where
  "kat_y =
    [33, 172, 194, 14, 100, 234, 106, 20, 227, 214, 1, 190,
     237, 149, 50, 205, 158, 0, 42, 23, 210, 7, 19, 202]"

definition kat_g1 :: "byte list" where
  "kat_g1 =
    [141, 58, 172, 29, 121, 21, 133, 155, 220, 76, 254, 116,
     163, 34, 23, 180, 22, 134, 128, 229, 69, 221, 181, 49,
     23, 91, 184, 50, 128, 0, 162, 31, 78, 249, 38, 117,
     148, 140, 230, 219, 192, 105, 216, 40, 16, 147, 82, 0,
     118, 122, 40, 136, 24, 49, 34, 246, 214, 3, 33, 52,
     203, 111, 109, 150]"

definition kat_d :: "byte list" where
  "kat_d =
    [130, 18, 55, 112, 199, 19, 156, 205, 136, 238, 39, 54,
     140, 208, 192, 146, 26, 4, 68, 200, 229, 133, 141, 34]"

definition kat_h1 :: "byte list" where
  "kat_h1 =
    [34, 168, 18, 39, 112, 241, 243, 73, 70, 238, 125, 172,
     180, 229, 85, 248, 154, 214, 237, 115, 11, 25, 181, 10]"

definition kat_c :: "byte list" where
  "kat_c =
    [3, 4, 208, 41, 20, 27, 153, 93, 165, 56, 124, 18,
     89, 112, 103, 53, 4, 214, 199, 100, 217, 30, 166, 192]"

section \<open>The XOR helper computes a bytewise exclusive-or\<close>

lemma xor_loop_le:
  "length x \<le> length y \<Longrightarrow> length result = length x \<Longrightarrow> i \<le> length x \<Longrightarrow>
   xor_loop x y i result = Inr (take i result @ map2 (XOR) (drop i x) (drop i y))"
proof (induction x y i result rule: xor_loop.induct)
  case (1 x y i result)
  show ?case
  proof (cases "i < length x")
    case True
    with 1 have iy: "i < length y" by simp
    have step: "xor_loop x y i result = xor_loop x y (i + 1) (result[i := x ! i XOR y ! i])"
      using True iy by (subst xor_loop.simps) simp
    have IH: "xor_loop x y (i + 1) (result[i := x ! i XOR y ! i]) =
              Inr (take (i + 1) (result[i := x ! i XOR y ! i]) @ map2 (XOR) (drop (i + 1) x) (drop (i + 1) y))"
      using "1.IH"(1) [OF True _ iy] True iy "1.prems" by simp
    have t: "take (i + 1) (result[i := x ! i XOR y ! i]) = take i result @ [x ! i XOR y ! i]"
      using True "1.prems" by (simp add: take_Suc_conv_app_nth)
    have dx: "drop i x = x ! i # drop (i + 1) x" using True by (simp add: Cons_nth_drop_Suc)
    have dy: "drop i y = y ! i # drop (i + 1) y" using iy by (simp add: Cons_nth_drop_Suc)
    show ?thesis unfolding step IH t dx dy by simp
  next
    case False
    with 1 show ?thesis by (subst xor_loop.simps) simp
  qed
qed

lemma xor_loop_gt:
  "length y < length x \<Longrightarrow> i \<le> length y \<Longrightarrow> xor_loop x y i result = Inl IndexOutOfRange"
proof (induction x y i result rule: xor_loop.induct)
  case (1 x y i result)
  show ?case
  proof (cases "i < length y")
    case True
    then show ?thesis using 1 by (subst xor_loop.simps) simp
  next
    case False
    then show ?thesis using 1 by (subst xor_loop.simps) simp
  qed
qed

lemma xor_le: "length x \<le> length y \<Longrightarrow> xor x y = Inr (map2 (XOR) x y)"
  by (simp add: xor_def xor_loop_le)

lemma xor_gt: "length y < length x \<Longrightarrow> xor x y = Inl IndexOutOfRange"
  by (simp add: xor_def xor_loop_gt)

lemma map2_xor_cancel:
  "length (x :: byte list) = length y \<Longrightarrow> map2 (XOR) (map2 (XOR) x y) y = x"
  by (induction x y rule: list_induct2) (simp_all add: xor.assoc)

section \<open>The round functions under the contract of the primitive\<close>

lemma wrap_int_id: "- (2 ^ 63) \<le> k \<Longrightarrow> k < 2 ^ 63 \<Longrightarrow> wrap_int k = k"
  unfolding wrap_int_def by (rule signed_take_bit_int_eq_self) simp_all

lemma ceilDiv_lenH:
  assumes "0 \<le> n" "n \<le> 2 ^ 63 - 64"
  shows "ceilDiv n lenH = (n + 63) div 64"
proof -
  have "wrap_int (n + 64 - 1) = n + 63"
    using assms by (subst wrap_int_id) simp_all
  then show ?thesis
    using assms by (simp add: ceilDiv_def lenH_def signed_divide_int_def sgn_if)
qed

lemma ceiling_div_64: "\<lceil>real_of_int n / 64\<rceil> = (n + 63) div 64"
proof -
  have "\<lceil>real_of_int n / 64\<rceil> = \<lceil>real_of_int n / real_of_int 64\<rceil>" by simp
  also have "\<dots> = - (- n div 64)" by (rule ceiling_divide_eq_div)
  finally show ?thesis by linarith
qed

lemma ceilDiv_ceiling:
  assumes "0 \<le> n" "n \<le> 2 ^ 63 - 64"
  shows "ceilDiv n lenH = \<lceil>real_of_int n / 64\<rceil>"
  using ceilDiv_lenH [OF assms] ceiling_div_64 [of n] by simp

lemma gRound_loop_eq:
  "(\<And>k. h (gPers i k) lenH u = Inr (dg k)) \<Longrightarrow> j \<le> ceilDiv lenR lenH \<Longrightarrow>
    gRound_loop h i u lenR j result = Inr (result @ concat (map dg [j..ceilDiv lenR lenH - 1]))"
proof (induction h i u lenR j result rule: gRound_loop.induct)
  case (1 h i u lenR j result)
  show ?case
  proof (cases "j < ceilDiv lenR lenH")
    case True
    have in1: "inner h i u j = Inr (dg j)" using "1.prems"(1) by (simp add: inner_def)
    have "gRound_loop h i u lenR j result = gRound_loop h i u lenR (j + 1) (result @ dg j)"
      using True in1 by (subst gRound_loop.simps) simp
    also have "\<dots> = Inr ((result @ dg j) @ concat (map dg [j + 1..ceilDiv lenR lenH - 1]))"
      using "1.IH" [OF True in1 "1.prems"(1)] True by simp
    also have "\<dots> = Inr (result @ concat (map dg [j..ceilDiv lenR lenH - 1]))"
      using True by (simp add: upto_rec1 [of j])
    finally show ?thesis .
  next
    case False
    with 1 show ?thesis by (subst gRound_loop.simps) simp
  qed
qed

lemma length_concat_blocks:
  assumes "\<And>k. length (dg k) = 64"
  shows "int (length (concat (map dg [j..n]))) = (if j \<le> n then 64 * (n - j + 1) else 0)"
proof (induction j n rule: upto.induct)
  case (1 i j)
  show ?case
  proof (cases "i \<le> j")
    case True
    then show ?thesis using 1 assms by (simp add: upto_rec1 [of i j])
  next
    case False
    then show ?thesis by simp
  qed
qed

lemma gRound_eq:
  assumes dg: "\<And>k. h (gPers i k) lenH u = Inr (dg k)" and len: "\<And>k. length (dg k) = 64"
    and n: "0 \<le> n" "n \<le> 2 ^ 63 - 64"
  shows "gRound h i u n = Inr (take (nat n) (concat (map dg [0..ceilDiv n lenH - 1])))"
proof -
  have c: "ceilDiv n lenH = (n + 63) div 64" by (rule ceilDiv_lenH [OF n])
  then have c0: "0 \<le> ceilDiv n lenH" using n by simp
  have loop: "gRound_loop h i u n 0 [] = Inr (concat (map dg [0..ceilDiv n lenH - 1]))"
    using gRound_loop_eq [of h i u dg 0 n "[]", OF dg c0] by simp
  have "int (length (concat (map dg [0..ceilDiv n lenH - 1]))) = 64 * ceilDiv n lenH"
    using length_concat_blocks [of dg 0 "ceilDiv n lenH - 1", OF len] c0
    by (simp split: if_splits)
  moreover have "n \<le> 64 * ((n + 63) div 64)" by linarith
  ultimately have "n \<le> int (length (concat (map dg [0..ceilDiv n lenH - 1])))"
    using c by simp
  then show ?thesis using loop n by (simp add: gRound_def)
qed

lemma length_gPers: "length (gPers i j) = 16" by (simp add: gPers_def)
lemma length_hPers: "length (hPers i) = 16" by (simp add: hPers_def)

lemma hash_contractD:
  "hash_contract h \<Longrightarrow> length p = 16 \<Longrightarrow> 1 \<le> n \<Longrightarrow> n \<le> 64 \<Longrightarrow>
   \<exists>dg. h p n u = Inr dg \<and> int (length dg) = n"
  by (simp add: hash_contract_def)

lemma gRound_ok:
  assumes h: "hash_contract h" and n: "0 \<le> n" "n \<le> 2 ^ 63 - 64"
  shows "\<exists>g. gRound h i u n = Inr g \<and> length g = nat n"
proof -
  define dg where "dg k = projr (h (gPers i k) lenH u)" for k
  have ex: "\<exists>d. h (gPers i k) lenH u = Inr d \<and> int (length d) = 64" for k
    using hash_contractD [OF h length_gPers, of 64 i k u] by (simp add: lenH_def)
  have dg: "h (gPers i k) lenH u = Inr (dg k)" for k
    using ex [of k] by (auto simp: dg_def)
  have len: "length (dg k) = 64" for k
    using ex [of k] dg [of k] by auto
  have c: "ceilDiv n lenH = (n + 63) div 64" by (rule ceilDiv_lenH [OF n])
  have "int (length (concat (map dg [0..ceilDiv n lenH - 1]))) = 64 * ceilDiv n lenH"
    using length_concat_blocks [of dg 0 "ceilDiv n lenH - 1", OF len] c n
    by (simp split: if_splits)
  moreover have "n \<le> 64 * ((n + 63) div 64)" by linarith
  ultimately have "n \<le> int (length (concat (map dg [0..ceilDiv n lenH - 1])))"
    using c by simp
  then have "length (take (nat n) (concat (map dg [0..ceilDiv n lenH - 1]))) = nat n"
    by simp
  moreover have "gRound h i u n = Inr (take (nat n) (concat (map dg [0..ceilDiv n lenH - 1])))"
    using dg len n by (rule gRound_eq)
  ultimately show ?thesis by blast
qed

lemma hRound_ok:
  assumes h: "hash_contract h" and n: "1 \<le> n" "n \<le> 64"
  shows "\<exists>dg. hRound h i u n = Inr dg \<and> int (length dg) = n"
proof -
  obtain dg where "h (hPers i) n u = Inr dg" "int (length dg) = n"
    using hash_contractD [OF h length_hPers n] by blast
  then show ?thesis by (simp add: hRound_def)
qed

section \<open>One run of the Feistel network\<close>

lemma split_lengths:
  assumes "48 \<le> n" "n \<le> 4194368"
  shows "min_int lenH (n sdiv 2) = min 64 (n div 2)"
    and "24 \<le> min_int lenH (n sdiv 2)" and "min_int lenH (n sdiv 2) \<le> 64"
    and "min_int lenH (n sdiv 2) \<le> n - min_int lenH (n sdiv 2)"
    and "n - min_int lenH (n sdiv 2) \<le> 2 ^ 63 - 64"
proof -
  have sd: "n sdiv 2 = n div 2"
    using assms by (simp add: signed_divide_int_def sgn_if)
  show "min_int lenH (n sdiv 2) = min 64 (n div 2)"
    unfolding sd by (simp add: min_int_def lenH_def min_def)
  have half: "24 \<le> n div 2" "2 * (n div 2) \<le> n" "0 \<le> n div 2"
    using assms by linarith+
  have m: "min_int lenH (n sdiv 2) = (if 64 \<le> n div 2 then 64 else n div 2)"
    unfolding sd by (simp add: min_int_def lenH_def)
  show "24 \<le> min_int lenH (n sdiv 2)" and "min_int lenH (n sdiv 2) \<le> 64"
    and "min_int lenH (n sdiv 2) \<le> n - min_int lenH (n sdiv 2)"
    and "n - min_int lenH (n sdiv 2) \<le> 2 ^ 63 - 64"
    unfolding m using assms half by auto
qed

lemma xor_eq_length:
  "length x = length y \<Longrightarrow> xor x y = Inr (map2 (XOR) x y) \<and> length (map2 (XOR) x y) = length x"
  by (simp add: xor_le)

lemma F4Jumble_run_ok:
  assumes h: "hash_contract h" and len: "48 \<le> int (length M)" "int (length M) \<le> 4194368"
  shows "\<exists>s. F4Jumble_run h M = Inr s
    \<and> v_lenM s = int (length M)
    \<and> v_lenL s = min_int lenH (int (length M) sdiv 2)
    \<and> v_lenR s = int (length M) - v_lenL s
    \<and> v_a s = take (nat (v_lenL s)) M
    \<and> v_b s = drop (nat (v_lenL s)) M
    \<and> gRound h 0 (v_a s) (v_lenR s) = Inr (v_g0 s)
    \<and> length (v_g0 s) = nat (v_lenR s)
    \<and> v_x s = map2 (XOR) (v_b s) (v_g0 s)
    \<and> hRound h 0 (v_x s) (v_lenL s) = Inr (v_h0 s)
    \<and> length (v_h0 s) = nat (v_lenL s)
    \<and> v_y s = map2 (XOR) (v_a s) (v_h0 s)
    \<and> gRound h 1 (v_y s) (v_lenR s) = Inr (v_g1 s)
    \<and> length (v_g1 s) = nat (v_lenR s)
    \<and> v_d s = map2 (XOR) (v_x s) (v_g1 s)
    \<and> hRound h 1 (v_d s) (v_lenL s) = Inr (v_h1 s)
    \<and> length (v_h1 s) = nat (v_lenL s)
    \<and> v_c s = map2 (XOR) (v_y s) (v_h1 s)
    \<and> 24 \<le> v_lenL s \<and> v_lenL s \<le> 64 \<and> v_lenL s \<le> v_lenR s
    \<and> length (v_a s) = nat (v_lenL s) \<and> length (v_b s) = nat (v_lenR s)
    \<and> length (v_x s) = nat (v_lenR s) \<and> length (v_y s) = nat (v_lenL s)
    \<and> length (v_d s) = nat (v_lenR s) \<and> length (v_c s) = nat (v_lenL s)
    \<and> xor (v_b s) (v_g0 s) = Inr (v_x s) \<and> xor (v_a s) (v_h0 s) = Inr (v_y s)
    \<and> xor (v_x s) (v_g1 s) = Inr (v_d s) \<and> xor (v_y s) (v_h1 s) = Inr (v_c s)"
proof -
  define n where "n = int (length M)"
  define L where "L = min_int lenH (n sdiv 2)"
  define R where "R = n - L"
  define A where "A = take (nat L) M"
  define B where "B = drop (nat L) M"
  have n: "48 \<le> n" "n \<le> 4194368" using len by (simp_all add: n_def)
  have L: "24 \<le> L" "L \<le> 64" "L \<le> R" "R \<le> 2 ^ 63 - 64"
    using split_lengths(2-5) [OF n] by (simp_all add: L_def R_def)
  have lA: "length A = nat L" and lB: "length B = nat R"
    using L n by (simp_all add: A_def B_def R_def n_def)
  obtain G0 where G0: "gRound h 0 A R = Inr G0" "length G0 = nat R"
    using gRound_ok [OF h, of R 0 A] L by auto
  define X where "X = map2 (XOR) B G0"
  have X: "xor B G0 = Inr X" "length X = nat R"
    using xor_eq_length [of B G0] lB G0 by (simp_all add: X_def)
  obtain H0 where H0: "hRound h 0 X L = Inr H0" "length H0 = nat L"
    using hRound_ok [OF h, of L 0 X] L by auto
  define Y where "Y = map2 (XOR) A H0"
  have Y: "xor A H0 = Inr Y" "length Y = nat L"
    using xor_eq_length [of A H0] lA H0 by (simp_all add: Y_def)
  obtain G1 where G1: "gRound h 1 Y R = Inr G1" "length G1 = nat R"
    using gRound_ok [OF h, of R 1 Y] L by auto
  define D where "D = map2 (XOR) X G1"
  have D: "xor X G1 = Inr D" "length D = nat R"
    using xor_eq_length [of X G1] X G1 by (simp_all add: D_def)
  obtain H1 where H1: "hRound h 1 D L = Inr H1" "length H1 = nat L"
    using hRound_ok [OF h, of L 1 D] L by auto
  define C where "C = map2 (XOR) Y H1"
  have C: "xor Y H1 = Inr C" "length C = nat L"
    using xor_eq_length [of Y H1] Y H1 by (simp_all add: C_def)
  have valid: "\<not> (n < minLenM \<or> n > maxLenM)"
    using n by (simp add: minLenM_def maxLenM_def)
  have run: "F4Jumble_run h M =
      Inr \<lparr>v_lenM = n, v_lenL = L, v_lenR = R, v_a = A, v_b = B, v_c = C, v_d = D,
           v_g0 = G0, v_g1 = G1, v_h0 = H0, v_h1 = H1, v_x = X, v_y = Y\<rparr>"
    unfolding F4Jumble_run_def Let_def n_def [symmetric]
    using valid
    by (simp add: L_def [symmetric] R_def [symmetric] A_def [symmetric] B_def [symmetric]
         G0 X H0 Y G1 D H1 C)
  show ?thesis
    unfolding run using G0 H0 G1 H1 X Y D C lA lB L(1-3)
    by (simp add: X_def Y_def D_def C_def A_def B_def R_def L_def n_def)
qed

lemma F4JumbleInv_run_ok:
  assumes h: "hash_contract h" and len: "48 \<le> int (length M)" "int (length M) \<le> 4194368"
  shows "\<exists>s. F4JumbleInv_run h M = Inr s
    \<and> v_lenM s = int (length M)
    \<and> v_lenL s = min_int lenH (int (length M) sdiv 2)
    \<and> v_lenR s = int (length M) - v_lenL s
    \<and> v_c s = take (nat (v_lenL s)) M
    \<and> v_d s = drop (nat (v_lenL s)) M
    \<and> hRound h 1 (v_d s) (v_lenL s) = Inr (v_h1 s)
    \<and> length (v_h1 s) = nat (v_lenL s)
    \<and> v_y s = map2 (XOR) (v_c s) (v_h1 s)
    \<and> gRound h 1 (v_y s) (v_lenR s) = Inr (v_g1 s)
    \<and> length (v_g1 s) = nat (v_lenR s)
    \<and> v_x s = map2 (XOR) (v_d s) (v_g1 s)
    \<and> hRound h 0 (v_x s) (v_lenL s) = Inr (v_h0 s)
    \<and> length (v_h0 s) = nat (v_lenL s)
    \<and> v_a s = map2 (XOR) (v_y s) (v_h0 s)
    \<and> gRound h 0 (v_a s) (v_lenR s) = Inr (v_g0 s)
    \<and> length (v_g0 s) = nat (v_lenR s)
    \<and> v_b s = map2 (XOR) (v_x s) (v_g0 s)
    \<and> 24 \<le> v_lenL s \<and> v_lenL s \<le> 64 \<and> v_lenL s \<le> v_lenR s
    \<and> length (v_c s) = nat (v_lenL s) \<and> length (v_d s) = nat (v_lenR s)
    \<and> length (v_y s) = nat (v_lenL s) \<and> length (v_x s) = nat (v_lenR s)
    \<and> length (v_a s) = nat (v_lenL s) \<and> length (v_b s) = nat (v_lenR s)
    \<and> xor (v_c s) (v_h1 s) = Inr (v_y s) \<and> xor (v_d s) (v_g1 s) = Inr (v_x s)
    \<and> xor (v_y s) (v_h0 s) = Inr (v_a s) \<and> xor (v_x s) (v_g0 s) = Inr (v_b s)"
proof -
  define n where "n = int (length M)"
  define L where "L = min_int lenH (n sdiv 2)"
  define R where "R = n - L"
  define C where "C = take (nat L) M"
  define D where "D = drop (nat L) M"
  have n: "48 \<le> n" "n \<le> 4194368" using len by (simp_all add: n_def)
  have L: "24 \<le> L" "L \<le> 64" "L \<le> R" "R \<le> 2 ^ 63 - 64"
    using split_lengths(2-5) [OF n] by (simp_all add: L_def R_def)
  have lC: "length C = nat L" and lD: "length D = nat R"
    using L n by (simp_all add: C_def D_def R_def n_def)
  obtain H1 where H1: "hRound h 1 D L = Inr H1" "length H1 = nat L"
    using hRound_ok [OF h, of L 1 D] L by auto
  define Y where "Y = map2 (XOR) C H1"
  have Y: "xor C H1 = Inr Y" "length Y = nat L"
    using xor_eq_length [of C H1] lC H1 by (simp_all add: Y_def)
  obtain G1 where G1: "gRound h 1 Y R = Inr G1" "length G1 = nat R"
    using gRound_ok [OF h, of R 1 Y] L by auto
  define X where "X = map2 (XOR) D G1"
  have X: "xor D G1 = Inr X" "length X = nat R"
    using xor_eq_length [of D G1] lD G1 by (simp_all add: X_def)
  obtain H0 where H0: "hRound h 0 X L = Inr H0" "length H0 = nat L"
    using hRound_ok [OF h, of L 0 X] L by auto
  define A where "A = map2 (XOR) Y H0"
  have A: "xor Y H0 = Inr A" "length A = nat L"
    using xor_eq_length [of Y H0] Y H0 by (simp_all add: A_def)
  obtain G0 where G0: "gRound h 0 A R = Inr G0" "length G0 = nat R"
    using gRound_ok [OF h, of R 0 A] L by auto
  define B where "B = map2 (XOR) X G0"
  have B: "xor X G0 = Inr B" "length B = nat R"
    using xor_eq_length [of X G0] X G0 by (simp_all add: B_def)
  have valid: "\<not> (n < minLenM \<or> n > maxLenM)"
    using n by (simp add: minLenM_def maxLenM_def)
  have run: "F4JumbleInv_run h M =
      Inr \<lparr>v_lenM = n, v_lenL = L, v_lenR = R, v_a = A, v_b = B, v_c = C, v_d = D,
           v_g0 = G0, v_g1 = G1, v_h0 = H0, v_h1 = H1, v_x = X, v_y = Y\<rparr>"
    unfolding F4JumbleInv_run_def Let_def n_def [symmetric]
    using valid
    by (simp add: L_def [symmetric] R_def [symmetric] C_def [symmetric] D_def [symmetric]
         H1 Y G1 X H0 A G0 B)
  show ?thesis
    unfolding run using H1 G1 H0 G0 Y X A B lC lD L(1-3)
    by (simp add: Y_def X_def A_def B_def C_def D_def R_def L_def n_def)
qed

lemma toy_hash_contract: "hash_contract toy_hash"
  by (simp add: hash_contract_def toy_hash_def)

lemma length_msg48: "length msg48 = 48"
  by (simp add: msg48_def)

lemma F4Jumble_eq:
  "F4Jumble_run h M = Inr s \<Longrightarrow> F4Jumble h M = Inr (v_c s @ v_d s)"
  by (simp add: F4Jumble_def)

lemma F4JumbleInv_eq:
  "F4JumbleInv_run h M = Inr s \<Longrightarrow> F4JumbleInv h M = Inr (v_a s @ v_b s)"
  by (simp add: F4JumbleInv_def)

section \<open>The two transforms undo each other\<close>

text \<open>
  Claim C1. For every message \<open>M\<close> with \<open>48 \<le> len(M) \<le> 4194368\<close>, and a hash
  primitive that meets its contract (a function that does not fail and returns
  digests of the requested length), \<open>F4Jumble(M)\<close> succeeds and \<open>F4JumbleInv\<close>
  applied to its result returns \<open>M\<close>.
\<close>

theorem F4JumbleInv_F4Jumble:
  assumes h: "hash_contract h" and len: "48 \<le> int (length M)" "int (length M) \<le> 4194368"
  shows "\<exists>J. F4Jumble h M = Inr J \<and> F4JumbleInv h J = Inr M"
proof -
  obtain s where s: "F4Jumble_run h M = Inr s"
    "v_lenL s = min_int lenH (int (length M) sdiv 2)"
    "v_lenR s = int (length M) - v_lenL s"
    "v_a s = take (nat (v_lenL s)) M"
    "v_b s = drop (nat (v_lenL s)) M"
    "gRound h 0 (v_a s) (v_lenR s) = Inr (v_g0 s)"
    "length (v_g0 s) = nat (v_lenR s)"
    "v_x s = map2 (XOR) (v_b s) (v_g0 s)"
    "hRound h 0 (v_x s) (v_lenL s) = Inr (v_h0 s)"
    "length (v_h0 s) = nat (v_lenL s)"
    "v_y s = map2 (XOR) (v_a s) (v_h0 s)"
    "gRound h 1 (v_y s) (v_lenR s) = Inr (v_g1 s)"
    "length (v_g1 s) = nat (v_lenR s)"
    "v_d s = map2 (XOR) (v_x s) (v_g1 s)"
    "hRound h 1 (v_d s) (v_lenL s) = Inr (v_h1 s)"
    "length (v_h1 s) = nat (v_lenL s)"
    "v_c s = map2 (XOR) (v_y s) (v_h1 s)"
    using F4Jumble_run_ok [OF h len] by blast
  define L where "L = v_lenL s"
  define R where "R = v_lenR s"
  have L: "24 \<le> L" "L \<le> R" "R = int (length M) - L"
    using split_lengths(2,4) [OF len] s(2,3) by (simp_all add: L_def R_def)
  have la: "length (v_a s) = nat L" and lb: "length (v_b s) = nat R"
    using L by (simp_all add: s(4,5) L_def [symmetric])
  have lx: "length (v_x s) = nat R" by (simp add: s(8) lb s(7) R_def)
  have ly: "length (v_y s) = nat L" by (simp add: s(11) la s(10) L_def)
  have ld: "length (v_d s) = nat R" by (simp add: s(14) lx s(13) R_def)
  have lc: "length (v_c s) = nat L" by (simp add: s(17) ly s(16) L_def)
  define J where "J = v_c s @ v_d s"
  have J: "F4Jumble h M = Inr J" unfolding J_def by (rule F4Jumble_eq [OF s(1)])
  have lJ: "length J = length M"
    using L by (simp add: J_def lc ld)
  obtain t where t: "F4JumbleInv_run h J = Inr t"
    "v_lenL t = min_int lenH (int (length J) sdiv 2)"
    "v_lenR t = int (length J) - v_lenL t"
    "v_c t = take (nat (v_lenL t)) J"
    "v_d t = drop (nat (v_lenL t)) J"
    "hRound h 1 (v_d t) (v_lenL t) = Inr (v_h1 t)"
    "v_y t = map2 (XOR) (v_c t) (v_h1 t)"
    "gRound h 1 (v_y t) (v_lenR t) = Inr (v_g1 t)"
    "v_x t = map2 (XOR) (v_d t) (v_g1 t)"
    "hRound h 0 (v_x t) (v_lenL t) = Inr (v_h0 t)"
    "v_a t = map2 (XOR) (v_y t) (v_h0 t)"
    "gRound h 0 (v_a t) (v_lenR t) = Inr (v_g0 t)"
    "v_b t = map2 (XOR) (v_x t) (v_g0 t)"
    using F4JumbleInv_run_ok [OF h, of J] len unfolding lJ by blast
  have tL: "v_lenL t = L" and tR: "v_lenR t = R"
    using t(2,3) s(2,3) by (simp_all add: lJ L_def R_def)
  have c: "v_c t = v_c s" and d: "v_d t = v_d s"
    by (simp_all add: t(4,5) tL J_def lc)
  have h1: "v_h1 t = v_h1 s"
    using t(6) s(15) by (simp add: d tL L_def)
  have y: "v_y t = v_y s"
    unfolding t(7) c h1 s(17) by (rule map2_xor_cancel) (simp add: ly s(16) L_def)
  have g1: "v_g1 t = v_g1 s"
    using t(8) s(12) by (simp add: y tR R_def)
  have x: "v_x t = v_x s"
    unfolding t(9) d g1 s(14) by (rule map2_xor_cancel) (simp add: lx s(13) R_def)
  have h0: "v_h0 t = v_h0 s"
    using t(10) s(9) by (simp add: x tL L_def)
  have a: "v_a t = v_a s"
    unfolding t(11) y h0 s(11) by (rule map2_xor_cancel) (simp add: la s(10) L_def)
  have g0: "v_g0 t = v_g0 s"
    using t(12) s(6) by (simp add: a tR R_def)
  have b: "v_b t = v_b s"
    unfolding t(13) x g0 s(8) by (rule map2_xor_cancel) (simp add: lb s(7) R_def)
  have "F4JumbleInv h J = Inr (v_a t @ v_b t)" by (rule F4JumbleInv_eq [OF t(1)])
  also have "v_a t @ v_b t = M" by (simp add: a b s(4,5))
  finally show ?thesis using J by blast
qed


theorem F4JumbleInv_F4Jumble_witness:
  "48 \<le> int (length msg48) \<and> int (length msg48) \<le> 4194368 \<and>
   F4Jumble toy_hash msg48 = Inr toy_jumbled \<and> F4JumbleInv toy_hash toy_jumbled = Inr msg48"
proof -
  have len: "48 \<le> int (length msg48)" "int (length msg48) \<le> 4194368"
    by (simp_all add: length_msg48)
  obtain J where J: "F4Jumble toy_hash msg48 = Inr J" "F4JumbleInv toy_hash J = Inr msg48"
    using F4JumbleInv_F4Jumble [OF toy_hash_contract len] by blast
  have "F4Jumble toy_hash msg48 = Inr toy_jumbled" by code_simp
  with J have "J = toy_jumbled" by simp
  with J len show ?thesis by simp
qed

text \<open>
  Claim C2. Under the same hypotheses \<open>F4JumbleInv(M)\<close> succeeds and \<open>F4Jumble\<close>
  applied to its result returns \<open>M\<close>.
\<close>

theorem F4Jumble_F4JumbleInv:
  assumes h: "hash_contract h" and len: "48 \<le> int (length M)" "int (length M) \<le> 4194368"
  shows "\<exists>U. F4JumbleInv h M = Inr U \<and> F4Jumble h U = Inr M"
proof -
  obtain s where s: "F4JumbleInv_run h M = Inr s"
    "v_lenL s = min_int lenH (int (length M) sdiv 2)"
    "v_lenR s = int (length M) - v_lenL s"
    "v_c s = take (nat (v_lenL s)) M"
    "v_d s = drop (nat (v_lenL s)) M"
    "hRound h 1 (v_d s) (v_lenL s) = Inr (v_h1 s)"
    "length (v_h1 s) = nat (v_lenL s)"
    "v_y s = map2 (XOR) (v_c s) (v_h1 s)"
    "gRound h 1 (v_y s) (v_lenR s) = Inr (v_g1 s)"
    "length (v_g1 s) = nat (v_lenR s)"
    "v_x s = map2 (XOR) (v_d s) (v_g1 s)"
    "hRound h 0 (v_x s) (v_lenL s) = Inr (v_h0 s)"
    "length (v_h0 s) = nat (v_lenL s)"
    "v_a s = map2 (XOR) (v_y s) (v_h0 s)"
    "gRound h 0 (v_a s) (v_lenR s) = Inr (v_g0 s)"
    "length (v_g0 s) = nat (v_lenR s)"
    "v_b s = map2 (XOR) (v_x s) (v_g0 s)"
    using F4JumbleInv_run_ok [OF h len] by blast
  define L where "L = v_lenL s"
  define R where "R = v_lenR s"
  have L: "24 \<le> L" "L \<le> R" "R = int (length M) - L"
    using split_lengths(2,4) [OF len] s(2,3) by (simp_all add: L_def R_def)
  have lc: "length (v_c s) = nat L" and ld: "length (v_d s) = nat R"
    using L by (simp_all add: s(4,5) L_def [symmetric])
  have ly: "length (v_y s) = nat L" by (simp add: s(8) lc s(7) L_def)
  have lx: "length (v_x s) = nat R" by (simp add: s(11) ld s(10) R_def)
  have la: "length (v_a s) = nat L" by (simp add: s(14) ly s(13) L_def)
  have lb: "length (v_b s) = nat R" by (simp add: s(17) lx s(16) R_def)
  define U where "U = v_a s @ v_b s"
  have U: "F4JumbleInv h M = Inr U" unfolding U_def by (rule F4JumbleInv_eq [OF s(1)])
  have lU: "length U = length M"
    using L by (simp add: U_def la lb)
  obtain t where t: "F4Jumble_run h U = Inr t"
    "v_lenL t = min_int lenH (int (length U) sdiv 2)"
    "v_lenR t = int (length U) - v_lenL t"
    "v_a t = take (nat (v_lenL t)) U"
    "v_b t = drop (nat (v_lenL t)) U"
    "gRound h 0 (v_a t) (v_lenR t) = Inr (v_g0 t)"
    "v_x t = map2 (XOR) (v_b t) (v_g0 t)"
    "hRound h 0 (v_x t) (v_lenL t) = Inr (v_h0 t)"
    "v_y t = map2 (XOR) (v_a t) (v_h0 t)"
    "gRound h 1 (v_y t) (v_lenR t) = Inr (v_g1 t)"
    "v_d t = map2 (XOR) (v_x t) (v_g1 t)"
    "hRound h 1 (v_d t) (v_lenL t) = Inr (v_h1 t)"
    "v_c t = map2 (XOR) (v_y t) (v_h1 t)"
    using F4Jumble_run_ok [OF h, of U] len unfolding lU by blast
  have tL: "v_lenL t = L" and tR: "v_lenR t = R"
    using t(2,3) s(2,3) by (simp_all add: lU L_def R_def)
  have a: "v_a t = v_a s" and b: "v_b t = v_b s"
    by (simp_all add: t(4,5) tL U_def la)
  have g0: "v_g0 t = v_g0 s"
    using t(6) s(15) by (simp add: a tR R_def)
  have x: "v_x t = v_x s"
    unfolding t(7) b g0 s(17) by (rule map2_xor_cancel) (simp add: lx s(16) R_def)
  have h0: "v_h0 t = v_h0 s"
    using t(8) s(12) by (simp add: x tL L_def)
  have y: "v_y t = v_y s"
    unfolding t(9) a h0 s(14) by (rule map2_xor_cancel) (simp add: ly s(13) L_def)
  have g1: "v_g1 t = v_g1 s"
    using t(10) s(9) by (simp add: y tR R_def)
  have d: "v_d t = v_d s"
    unfolding t(11) x g1 s(11) by (rule map2_xor_cancel) (simp add: ld s(10) R_def)
  have h1: "v_h1 t = v_h1 s"
    using t(12) s(6) by (simp add: d tL L_def)
  have c: "v_c t = v_c s"
    unfolding t(13) y h1 s(8) by (rule map2_xor_cancel) (simp add: lc s(7) L_def)
  have "F4Jumble h U = Inr (v_c t @ v_d t)" by (rule F4Jumble_eq [OF t(1)])
  also have "v_c t @ v_d t = M" by (simp add: c d s(4,5))
  finally show ?thesis using U by blast
qed

theorem F4Jumble_F4JumbleInv_witness:
  "48 \<le> int (length msg48) \<and> int (length msg48) \<le> 4194368 \<and>
   F4JumbleInv toy_hash msg48 = Inr toy_unjumbled \<and> F4Jumble toy_hash toy_unjumbled = Inr msg48"
proof -
  have len: "48 \<le> int (length msg48)" "int (length msg48) \<le> 4194368"
    by (simp_all add: length_msg48)
  obtain U where U: "F4JumbleInv toy_hash msg48 = Inr U" "F4Jumble toy_hash U = Inr msg48"
    using F4Jumble_F4JumbleInv [OF toy_hash_contract len] by blast
  have "F4JumbleInv toy_hash msg48 = Inr toy_unjumbled" by code_simp
  with U have "U = toy_unjumbled" by simp
  with U len show ?thesis by simp
qed

section \<open>Lengths\<close>

text \<open>
  Claim C4. For every message \<open>M\<close> with \<open>48 \<le> len(M) \<le> 4194368\<close>, and a hash
  primitive that does not fail and returns digests of exactly the requested length,
  \<open>F4Jumble(M)\<close> and \<open>F4JumbleInv(M)\<close> both succeed and each returns exactly
  \<open>len(M)\<close> bytes.
\<close>

theorem length_preserved:
  assumes h: "hash_contract h" and len: "48 \<le> int (length M)" "int (length M) \<le> 4194368"
  shows "(\<exists>J. F4Jumble h M = Inr J \<and> length J = length M) \<and>
         (\<exists>U. F4JumbleInv h M = Inr U \<and> length U = length M)"
proof
  obtain s where s: "F4Jumble_run h M = Inr s"
    "v_lenL s = min_int lenH (int (length M) sdiv 2)"
    "v_lenR s = int (length M) - v_lenL s"
    "v_a s = take (nat (v_lenL s)) M"
    "v_b s = drop (nat (v_lenL s)) M"
    "length (v_g0 s) = nat (v_lenR s)"
    "v_x s = map2 (XOR) (v_b s) (v_g0 s)"
    "length (v_h0 s) = nat (v_lenL s)"
    "v_y s = map2 (XOR) (v_a s) (v_h0 s)"
    "length (v_g1 s) = nat (v_lenR s)"
    "v_d s = map2 (XOR) (v_x s) (v_g1 s)"
    "length (v_h1 s) = nat (v_lenL s)"
    "v_c s = map2 (XOR) (v_y s) (v_h1 s)"
    using F4Jumble_run_ok [OF h len] by blast
  have L: "24 \<le> v_lenL s" "v_lenL s \<le> v_lenR s"
    using split_lengths(2,4) [OF len] s(2,3) by simp_all
  have "nat (v_lenL s) \<le> length M" "length M - nat (v_lenL s) = nat (v_lenR s)"
    using L s(3) by linarith+
  then have "length (v_c s) = nat (v_lenL s)" "length (v_d s) = nat (v_lenR s)"
    by (simp_all add: s(4-13))
  then have "length (v_c s @ v_d s) = length M"
    using L s(3) by simp
  then show "\<exists>J. F4Jumble h M = Inr J \<and> length J = length M"
    using F4Jumble_eq [OF s(1)] by blast
next
  obtain s where s: "F4JumbleInv_run h M = Inr s"
    "v_lenL s = min_int lenH (int (length M) sdiv 2)"
    "v_lenR s = int (length M) - v_lenL s"
    "v_c s = take (nat (v_lenL s)) M"
    "v_d s = drop (nat (v_lenL s)) M"
    "length (v_h1 s) = nat (v_lenL s)"
    "v_y s = map2 (XOR) (v_c s) (v_h1 s)"
    "length (v_g1 s) = nat (v_lenR s)"
    "v_x s = map2 (XOR) (v_d s) (v_g1 s)"
    "length (v_h0 s) = nat (v_lenL s)"
    "v_a s = map2 (XOR) (v_y s) (v_h0 s)"
    "length (v_g0 s) = nat (v_lenR s)"
    "v_b s = map2 (XOR) (v_x s) (v_g0 s)"
    using F4JumbleInv_run_ok [OF h len] by blast
  have L: "24 \<le> v_lenL s" "v_lenL s \<le> v_lenR s"
    using split_lengths(2,4) [OF len] s(2,3) by simp_all
  have "nat (v_lenL s) \<le> length M" "length M - nat (v_lenL s) = nat (v_lenR s)"
    using L s(3) by linarith+
  then have "length (v_a s) = nat (v_lenL s)" "length (v_b s) = nat (v_lenR s)"
    by (simp_all add: s(4-13))
  then have "length (v_a s @ v_b s) = length M"
    using L s(3) by simp
  then show "\<exists>U. F4JumbleInv h M = Inr U \<and> length U = length M"
    using F4JumbleInv_eq [OF s(1)] by blast
qed

theorem length_preserved_witness:
  "48 \<le> int (length msg48) \<and> int (length msg48) \<le> 4194368 \<and>
   (\<exists>J. F4Jumble toy_hash msg48 = Inr J \<and> length J = 48) \<and>
   (\<exists>U. F4JumbleInv toy_hash msg48 = Inr U \<and> length U = 48)"
  using length_preserved [OF toy_hash_contract, of msg48] by (simp add: length_msg48)

lemma invalid_length_eager:
  "int (length M) < 48 \<or> 4194368 < int (length M) \<Longrightarrow>
   F4Jumble h M = Inl InvalidMessageLength \<and> F4JumbleInv h M = Inl InvalidMessageLength"
  by (simp add: F4Jumble_def F4JumbleInv_def F4Jumble_run_def F4JumbleInv_run_def
      minLenM_def maxLenM_def)

text \<open>
  Claim C5. Both transforms return the invalid-length error exactly when
  \<open>len(M) < 48\<close> or \<open>len(M) > 4194368\<close> (given a primitive that does not fail). The
  check comes before any use of the primitive: for a length out of range the result
  is the invalid-length error whatever the primitive is, even one that fails on every
  call. In particular lengths 48 and 4194368 are accepted, 47 and 4194369 rejected.
\<close>

theorem invalid_length_iff:
  "(int (length M) < 48 \<or> 4194368 < int (length M) \<longrightarrow>
      F4Jumble h M = Inl InvalidMessageLength \<and> F4JumbleInv h M = Inl InvalidMessageLength)
   \<and> (hash_contract h \<longrightarrow>
      (F4Jumble h M = Inl InvalidMessageLength \<longleftrightarrow>
         int (length M) < 48 \<or> 4194368 < int (length M))
    \<and> (F4JumbleInv h M = Inl InvalidMessageLength \<longleftrightarrow>
         int (length M) < 48 \<or> 4194368 < int (length M)))"
proof (intro conjI impI)
  assume "int (length M) < 48 \<or> 4194368 < int (length M)"
  then show "F4Jumble h M = Inl InvalidMessageLength"
    and "F4JumbleInv h M = Inl InvalidMessageLength"
    using invalid_length_eager [of M h] by simp_all
next
  assume h: "hash_contract h"
  show "F4Jumble h M = Inl InvalidMessageLength \<longleftrightarrow>
         int (length M) < 48 \<or> 4194368 < int (length M)"
  proof (cases "int (length M) < 48 \<or> 4194368 < int (length M)")
    case True
    then show ?thesis using invalid_length_eager [of M h] by simp
  next
    case False
    then have "48 \<le> int (length M)" "int (length M) \<le> 4194368" by simp_all
    from F4Jumble_run_ok [OF h this] obtain s where "F4Jumble_run h M = Inr s" by blast
    then have "F4Jumble h M = Inr (v_c s @ v_d s)" by (rule F4Jumble_eq)
    with False show ?thesis by simp
  qed
  show "F4JumbleInv h M = Inl InvalidMessageLength \<longleftrightarrow>
         int (length M) < 48 \<or> 4194368 < int (length M)"
  proof (cases "int (length M) < 48 \<or> 4194368 < int (length M)")
    case True
    then show ?thesis using invalid_length_eager [of M h] by simp
  next
    case False
    then have "48 \<le> int (length M)" "int (length M) \<le> 4194368" by simp_all
    from F4JumbleInv_run_ok [OF h this] obtain s where "F4JumbleInv_run h M = Inr s" by blast
    then have "F4JumbleInv h M = Inr (v_a s @ v_b s)" by (rule F4JumbleInv_eq)
    with False show ?thesis by simp
  qed
qed

theorem invalid_length_iff_witness:
  "F4Jumble toy_hash (replicate 47 0) = Inl InvalidMessageLength
   \<and> F4JumbleInv toy_hash (replicate 47 0) = Inl InvalidMessageLength
   \<and> F4Jumble toy_hash (replicate 4194369 0) = Inl InvalidMessageLength
   \<and> F4JumbleInv toy_hash (replicate 4194369 0) = Inl InvalidMessageLength
   \<and> F4Jumble toy_hash (replicate 48 0) \<noteq> Inl InvalidMessageLength
   \<and> F4JumbleInv toy_hash (replicate 48 0) \<noteq> Inl InvalidMessageLength
   \<and> F4Jumble toy_hash (replicate 4194368 0) \<noteq> Inl InvalidMessageLength
   \<and> F4JumbleInv toy_hash (replicate 4194368 0) \<noteq> Inl InvalidMessageLength"
  using invalid_length_iff [of "replicate 47 0" toy_hash]
    invalid_length_iff [of "replicate 4194369 0" toy_hash]
    invalid_length_iff [of "replicate 48 0" toy_hash]
    invalid_length_iff [of "replicate 4194368 0" toy_hash]
    toy_hash_contract
  by simp

lemma min_int_eq:
  "48 \<le> n \<Longrightarrow> min_int lenH (n sdiv 2) = min 64 (n div 2)"
  by (simp add: min_int_def lenH_def min_def signed_divide_int_def sgn_if)

text \<open>
  Claim C6. For every message length from 48 to 4194368, both transforms compute the
  split \<open>lenL = min(64, lenM div 2)\<close> (floor division) and \<open>lenR = lenM - lenL\<close>; these
  satisfy \<open>lenL \<le> 64\<close>, \<open>lenL + lenR = lenM\<close> and \<open>lenL \<le> lenR\<close>, and the two parts
  of the message have these lengths. The statement is about the local variables of a
  completed run, hence the contract of the primitive among the hypotheses.
\<close>

theorem split_sizes:
  assumes h: "hash_contract h" and len: "48 \<le> int (length M)" "int (length M) \<le> 4194368"
  shows "\<exists>s t. F4Jumble_run h M = Inr s \<and> F4JumbleInv_run h M = Inr t
    \<and> v_lenM s = int (length M) \<and> v_lenM t = int (length M)
    \<and> v_lenL s = min 64 (v_lenM s div 2) \<and> v_lenL t = min 64 (v_lenM t div 2)
    \<and> v_lenR s = v_lenM s - v_lenL s \<and> v_lenR t = v_lenM t - v_lenL t
    \<and> v_lenL s \<le> 64 \<and> v_lenL s + v_lenR s = v_lenM s \<and> v_lenL s \<le> v_lenR s
    \<and> v_lenL t \<le> 64 \<and> v_lenL t + v_lenR t = v_lenM t \<and> v_lenL t \<le> v_lenR t
    \<and> int (length (v_a s)) = v_lenL s \<and> int (length (v_b s)) = v_lenR s
    \<and> int (length (v_c t)) = v_lenL t \<and> int (length (v_d t)) = v_lenR t"
proof -
  obtain s where s: "F4Jumble_run h M = Inr s" "v_lenM s = int (length M)"
    "v_lenL s = min_int lenH (int (length M) sdiv 2)"
    "v_lenR s = int (length M) - v_lenL s"
    "24 \<le> v_lenL s" "v_lenL s \<le> 64" "v_lenL s \<le> v_lenR s"
    "length (v_a s) = nat (v_lenL s)" "length (v_b s) = nat (v_lenR s)"
    using F4Jumble_run_ok [OF h len] by blast
  obtain t where t: "F4JumbleInv_run h M = Inr t" "v_lenM t = int (length M)"
    "v_lenL t = min_int lenH (int (length M) sdiv 2)"
    "v_lenR t = int (length M) - v_lenL t"
    "24 \<le> v_lenL t" "v_lenL t \<le> 64" "v_lenL t \<le> v_lenR t"
    "length (v_c t) = nat (v_lenL t)" "length (v_d t) = nat (v_lenR t)"
    using F4JumbleInv_run_ok [OF h len] by blast
  have Ls: "v_lenL s = min 64 (v_lenM s div 2)"
    unfolding s(2,3) by (rule min_int_eq [OF len(1)])
  have Lt: "v_lenL t = min 64 (v_lenM t div 2)"
    unfolding t(2,3) by (rule min_int_eq [OF len(1)])
  have Rs: "v_lenR s = v_lenM s - v_lenL s" "v_lenL s + v_lenR s = v_lenM s"
    unfolding s(2) using s(4) by simp_all
  have Rt: "v_lenR t = v_lenM t - v_lenL t" "v_lenL t + v_lenR t = v_lenM t"
    unfolding t(2) using t(4) by simp_all
  have ls: "int (length (v_a s)) = v_lenL s" "int (length (v_b s)) = v_lenR s"
    unfolding s(8,9) using s(5,7) by simp_all
  have lt: "int (length (v_c t)) = v_lenL t" "int (length (v_d t)) = v_lenR t"
    unfolding t(8,9) using t(5,7) by simp_all
  show ?thesis
    apply (rule exI [of _ s])
    apply (rule exI [of _ t])
    apply (intro conjI)
    apply (fact s(1,2,6,7) t(1,2,6,7) Ls Lt Rs Rt ls lt)+
    done
qed

theorem split_sizes_witness:
  "hash_contract toy_hash \<and> 48 \<le> int (length msg48) \<and> int (length msg48) \<le> 4194368 \<and>
   (\<exists>s t. F4Jumble_run toy_hash msg48 = Inr s \<and> F4JumbleInv_run toy_hash msg48 = Inr t
     \<and> v_lenL s = 24 \<and> v_lenR s = 24 \<and> v_lenL t = 24 \<and> v_lenR t = 24)"
proof -
  have len: "48 \<le> int (length msg48)" "int (length msg48) \<le> 4194368"
    by (simp_all add: length_msg48)
  obtain s t where "F4Jumble_run toy_hash msg48 = Inr s" "F4JumbleInv_run toy_hash msg48 = Inr t"
    "v_lenM s = int (length msg48)" "v_lenM t = int (length msg48)"
    "v_lenL s = min 64 (v_lenM s div 2)" "v_lenL t = min 64 (v_lenM t div 2)"
    "v_lenR s = v_lenM s - v_lenL s" "v_lenR t = v_lenM t - v_lenL t"
    using split_sizes [OF toy_hash_contract len] by blast
  then have "F4Jumble_run toy_hash msg48 = Inr s \<and> F4JumbleInv_run toy_hash msg48 = Inr t
     \<and> v_lenL s = 24 \<and> v_lenR s = 24 \<and> v_lenL t = 24 \<and> v_lenR t = 24"
    by (simp add: length_msg48)
  then show ?thesis using toy_hash_contract len by blast
qed

section \<open>The calls of the XOR helper\<close>

text \<open>
  Claim C10. In every run of \<open>F4Jumble\<close> or \<open>F4JumbleInv\<close> on a message of valid
  length (with a primitive that meets its contract) each of the four calls of \<open>xor\<close>
  gets two operands of equal length, \<open>lenR\<close> for the combinations with a \<open>G\<close> round
  and \<open>lenL\<close> for those with an \<open>H\<close> round; no call ends in an index panic, and each
  result is the bytewise exclusive-or of its operands.
\<close>

theorem xor_calls_equal_length:
  assumes h: "hash_contract h" and len: "48 \<le> int (length M)" "int (length M) \<le> 4194368"
  shows "\<exists>s t. F4Jumble_run h M = Inr s \<and> F4JumbleInv_run h M = Inr t
    \<and> length (v_b s) = nat (v_lenR s) \<and> length (v_g0 s) = nat (v_lenR s)
    \<and> xor (v_b s) (v_g0 s) = Inr (v_x s) \<and> v_x s = map2 (XOR) (v_b s) (v_g0 s)
    \<and> length (v_a s) = nat (v_lenL s) \<and> length (v_h0 s) = nat (v_lenL s)
    \<and> xor (v_a s) (v_h0 s) = Inr (v_y s) \<and> v_y s = map2 (XOR) (v_a s) (v_h0 s)
    \<and> length (v_x s) = nat (v_lenR s) \<and> length (v_g1 s) = nat (v_lenR s)
    \<and> xor (v_x s) (v_g1 s) = Inr (v_d s) \<and> v_d s = map2 (XOR) (v_x s) (v_g1 s)
    \<and> length (v_y s) = nat (v_lenL s) \<and> length (v_h1 s) = nat (v_lenL s)
    \<and> xor (v_y s) (v_h1 s) = Inr (v_c s) \<and> v_c s = map2 (XOR) (v_y s) (v_h1 s)
    \<and> length (v_c t) = nat (v_lenL t) \<and> length (v_h1 t) = nat (v_lenL t)
    \<and> xor (v_c t) (v_h1 t) = Inr (v_y t) \<and> v_y t = map2 (XOR) (v_c t) (v_h1 t)
    \<and> length (v_d t) = nat (v_lenR t) \<and> length (v_g1 t) = nat (v_lenR t)
    \<and> xor (v_d t) (v_g1 t) = Inr (v_x t) \<and> v_x t = map2 (XOR) (v_d t) (v_g1 t)
    \<and> length (v_y t) = nat (v_lenL t) \<and> length (v_h0 t) = nat (v_lenL t)
    \<and> xor (v_y t) (v_h0 t) = Inr (v_a t) \<and> v_a t = map2 (XOR) (v_y t) (v_h0 t)
    \<and> length (v_x t) = nat (v_lenR t) \<and> length (v_g0 t) = nat (v_lenR t)
    \<and> xor (v_x t) (v_g0 t) = Inr (v_b t) \<and> v_b t = map2 (XOR) (v_x t) (v_g0 t)"
proof -
  obtain s where s: "F4Jumble_run h M = Inr s"
    "length (v_b s) = nat (v_lenR s)" "length (v_g0 s) = nat (v_lenR s)"
    "xor (v_b s) (v_g0 s) = Inr (v_x s)" "v_x s = map2 (XOR) (v_b s) (v_g0 s)"
    "length (v_a s) = nat (v_lenL s)" "length (v_h0 s) = nat (v_lenL s)"
    "xor (v_a s) (v_h0 s) = Inr (v_y s)" "v_y s = map2 (XOR) (v_a s) (v_h0 s)"
    "length (v_x s) = nat (v_lenR s)" "length (v_g1 s) = nat (v_lenR s)"
    "xor (v_x s) (v_g1 s) = Inr (v_d s)" "v_d s = map2 (XOR) (v_x s) (v_g1 s)"
    "length (v_y s) = nat (v_lenL s)" "length (v_h1 s) = nat (v_lenL s)"
    "xor (v_y s) (v_h1 s) = Inr (v_c s)" "v_c s = map2 (XOR) (v_y s) (v_h1 s)"
    using F4Jumble_run_ok [OF h len] by blast
  obtain t where t: "F4JumbleInv_run h M = Inr t"
    "length (v_c t) = nat (v_lenL t)" "length (v_h1 t) = nat (v_lenL t)"
    "xor (v_c t) (v_h1 t) = Inr (v_y t)" "v_y t = map2 (XOR) (v_c t) (v_h1 t)"
    "length (v_d t) = nat (v_lenR t)" "length (v_g1 t) = nat (v_lenR t)"
    "xor (v_d t) (v_g1 t) = Inr (v_x t)" "v_x t = map2 (XOR) (v_d t) (v_g1 t)"
    "length (v_y t) = nat (v_lenL t)" "length (v_h0 t) = nat (v_lenL t)"
    "xor (v_y t) (v_h0 t) = Inr (v_a t)" "v_a t = map2 (XOR) (v_y t) (v_h0 t)"
    "length (v_x t) = nat (v_lenR t)" "length (v_g0 t) = nat (v_lenR t)"
    "xor (v_x t) (v_g0 t) = Inr (v_b t)" "v_b t = map2 (XOR) (v_x t) (v_g0 t)"
    using F4JumbleInv_run_ok [OF h len] by blast
  show ?thesis
    apply (rule exI [of _ s])
    apply (rule exI [of _ t])
    apply (intro conjI)
    apply (fact s t)+
    done
qed

theorem xor_calls_equal_length_witness:
  "hash_contract toy_hash \<and> 48 \<le> int (length msg48) \<and> int (length msg48) \<le> 4194368 \<and>
   (\<exists>s t. F4Jumble_run toy_hash msg48 = Inr s \<and> F4JumbleInv_run toy_hash msg48 = Inr t
     \<and> length (v_b s) = length (v_g0 s) \<and> xor (v_b s) (v_g0 s) = Inr (v_x s)
     \<and> length (v_a s) = length (v_h0 s) \<and> xor (v_a s) (v_h0 s) = Inr (v_y s)
     \<and> length (v_x s) = length (v_g1 s) \<and> xor (v_x s) (v_g1 s) = Inr (v_d s)
     \<and> length (v_y s) = length (v_h1 s) \<and> xor (v_y s) (v_h1 s) = Inr (v_c s)
     \<and> length (v_c t) = length (v_h1 t) \<and> xor (v_c t) (v_h1 t) = Inr (v_y t)
     \<and> length (v_d t) = length (v_g1 t) \<and> xor (v_d t) (v_g1 t) = Inr (v_x t)
     \<and> length (v_y t) = length (v_h0 t) \<and> xor (v_y t) (v_h0 t) = Inr (v_a t)
     \<and> length (v_x t) = length (v_g0 t) \<and> xor (v_x t) (v_g0 t) = Inr (v_b t))"
proof -
  have len: "48 \<le> int (length msg48)" "int (length msg48) \<le> 4194368"
    by (simp_all add: length_msg48)
  obtain s t where r: "F4Jumble_run toy_hash msg48 = Inr s" "F4JumbleInv_run toy_hash msg48 = Inr t"
    and l: "length (v_b s) = nat (v_lenR s)" "length (v_g0 s) = nat (v_lenR s)"
      "length (v_a s) = nat (v_lenL s)" "length (v_h0 s) = nat (v_lenL s)"
      "length (v_x s) = nat (v_lenR s)" "length (v_g1 s) = nat (v_lenR s)"
      "length (v_y s) = nat (v_lenL s)" "length (v_h1 s) = nat (v_lenL s)"
      "length (v_c t) = nat (v_lenL t)" "length (v_h1 t) = nat (v_lenL t)"
      "length (v_d t) = nat (v_lenR t)" "length (v_g1 t) = nat (v_lenR t)"
      "length (v_y t) = nat (v_lenL t)" "length (v_h0 t) = nat (v_lenL t)"
      "length (v_x t) = nat (v_lenR t)" "length (v_g0 t) = nat (v_lenR t)"
    and x: "xor (v_b s) (v_g0 s) = Inr (v_x s)" "xor (v_a s) (v_h0 s) = Inr (v_y s)"
      "xor (v_x s) (v_g1 s) = Inr (v_d s)" "xor (v_y s) (v_h1 s) = Inr (v_c s)"
      "xor (v_c t) (v_h1 t) = Inr (v_y t)" "xor (v_d t) (v_g1 t) = Inr (v_x t)"
      "xor (v_y t) (v_h0 t) = Inr (v_a t)" "xor (v_x t) (v_g0 t) = Inr (v_b t)"
    using xor_calls_equal_length [OF toy_hash_contract len] by blast
  have "F4Jumble_run toy_hash msg48 = Inr s \<and> F4JumbleInv_run toy_hash msg48 = Inr t
     \<and> length (v_b s) = length (v_g0 s) \<and> xor (v_b s) (v_g0 s) = Inr (v_x s)
     \<and> length (v_a s) = length (v_h0 s) \<and> xor (v_a s) (v_h0 s) = Inr (v_y s)
     \<and> length (v_x s) = length (v_g1 s) \<and> xor (v_x s) (v_g1 s) = Inr (v_d s)
     \<and> length (v_y s) = length (v_h1 s) \<and> xor (v_y s) (v_h1 s) = Inr (v_c s)
     \<and> length (v_c t) = length (v_h1 t) \<and> xor (v_c t) (v_h1 t) = Inr (v_y t)
     \<and> length (v_d t) = length (v_g1 t) \<and> xor (v_d t) (v_g1 t) = Inr (v_x t)
     \<and> length (v_y t) = length (v_h0 t) \<and> xor (v_y t) (v_h0 t) = Inr (v_a t)
     \<and> length (v_x t) = length (v_g0 t) \<and> xor (v_x t) (v_g0 t) = Inr (v_b t)"
    using r x by (simp add: l)
  then show ?thesis using toy_hash_contract len by blast
qed

section \<open>The XOR helper on operands of different lengths\<close>

text \<open>
  Claim C9 says that \<open>xor\<close> fails fast whenever its operands differ in length. It
  does not when the second operand is the longer one: \<open>xor([1], [2, 3])\<close> returns
  \<open>[3]\<close> without any failure.
\<close>

theorem xor_counterexample:
  "length [1::byte] \<noteq> length [2, 3::byte] \<and> xor [1] [2, 3] = Inr [3]"
  by code_simp

lemma zip_take_second: "zip x (take (length x) y) = zip x y"
proof (induction x arbitrary: y)
  case Nil
  show ?case by simp
next
  case (Cons a x)
  then show ?case by (cases y) simp_all
qed

text \<open>
  Claim C9, amended. For every \<open>x\<close> and \<open>y\<close> with \<open>len(x) \<le> len(y)\<close>, \<open>xor(x, y)\<close>
  returns a byte sequence of length \<open>len(x)\<close> whose \<open>i\<close>-th byte is \<open>x[i] XOR y[i]\<close>. A
  longer second operand is not rejected: its bytes from index \<open>len(x)\<close> on are never
  read, so the result is the same as on the truncated operand.
\<close>

theorem xor_first_not_longer:
  assumes "length x \<le> length y"
  shows "xor x y = Inr (map2 (XOR) x y)
    \<and> length (map2 (XOR) x y) = length x
    \<and> (\<forall>i < length x. map2 (XOR) x y ! i = x ! i XOR y ! i)
    \<and> xor x (take (length x) y) = xor x y"
proof -
  have "xor x (take (length x) y) = Inr (map2 (XOR) x (take (length x) y))"
    using assms by (intro xor_le) simp
  then have "xor x (take (length x) y) = Inr (map2 (XOR) x y)"
    by (simp only: zip_take_second)
  then show ?thesis using assms by (simp add: xor_le)
qed

theorem xor_first_not_longer_witness:
  "length [1::byte] \<le> length [2, 3::byte] \<and> xor [1] [2, 3] = Inr [3]
   \<and> xor [1] (take (length [1::byte]) [2, 3]) = Inr [3]"
  using xor_first_not_longer [of "[1]" "[2, 3]"] by simp

section \<open>The expanding round function\<close>

text \<open>
  Claim C7. For every round index \<open>i\<close>, input \<open>u\<close> and requested length \<open>outLen \<ge> 1\<close>,
  if the primitive returns a 64-byte digest for every tag \<open>gPers(i, j)\<close>, then
  \<open>gRound(i, u, outLen)\<close> returns the first \<open>outLen\<close> bytes of the concatenation of these
  digests for \<open>j = 0, \<dots>, ceil(outLen / 64) - 1\<close>, in that order. The requested length
  ranges over the lengths for which \<open>outLen + 63\<close> is a Go \<open>int\<close> at either width
  (\<open>outLen \<le> 2^31 - 64\<close>); \<open>gRound\<close> is only called with \<open>outLen = lenR\<close>, and
  \<open>24 \<le> lenR \<le> 4194304\<close> for every message of valid length.
\<close>

theorem gRound_blocks:
  assumes n: "1 \<le> outLen" "outLen \<le> 2 ^ 31 - 64"
    and dg: "\<forall>j. \<exists>dg. h (gPers i j) 64 u = Inr dg \<and> length dg = 64"
  shows "gRound h i u outLen =
    Inr (take (nat outLen)
          (concat (map (\<lambda>j. projr (h (gPers i j) 64 u)) [0..\<lceil>real_of_int outLen / 64\<rceil> - 1])))"
proof -
  have n0: "0 \<le> outLen" using n by simp
  have n1: "outLen \<le> 2 ^ 63 - 64" using n by simp
  have d: "h (gPers i k) lenH u = Inr (projr (h (gPers i k) 64 u))" for k
    using dg [rule_format, of k] by (auto simp: lenH_def)
  have l: "length (projr (h (gPers i k) 64 u)) = 64" for k
    using dg [rule_format, of k] by auto
  show ?thesis
    using gRound_eq [of h i u "\<lambda>j. projr (h (gPers i j) 64 u)" outLen, OF d l n0 n1]
    by (simp add: ceilDiv_ceiling [OF n0 n1])
qed

theorem gRound_blocks_witness:
  "(1::int) \<le> 100 \<and> (100::int) \<le> 2 ^ 31 - 64
   \<and> gRound toy_hash 0 [1, 2] 100 =
     Inr (take 100 (projr (toy_hash (gPers 0 0) 64 [1, 2]) @ projr (toy_hash (gPers 0 1) 64 [1, 2])))"
proof -
  have dg: "\<forall>j. \<exists>dg. toy_hash (gPers 0 j) 64 [1, 2] = Inr dg \<and> length dg = 64"
    by (simp add: toy_hash_def)
  have c: "\<lceil>real_of_int 100 / 64\<rceil> - 1 = 1" by simp
  have u: "[0..1::int] = [0, 1]" by (simp add: upto_rec1)
  show ?thesis
    using gRound_blocks [of 100 toy_hash 0 "[1, 2]", OF _ _ dg] unfolding c u by simp
qed

section \<open>The personalization tags\<close>

lemma low_byte: "j AND 255 = j mod 256" for j :: int
proof -
  have "j AND 255 = j AND mask 8" by (simp add: mask_eq_exp_minus_1)
  also have "\<dots> = take_bit 8 j" by (simp add: take_bit_eq_mask)
  finally show ?thesis by (simp add: take_bit_eq_mod)
qed

lemma uint_byte: "0 \<le> k \<Longrightarrow> k \<le> 255 \<Longrightarrow> uint (word_of_int k :: byte) = k"
  by (simp add: uint_word_of_int take_bit_eq_mod)

text \<open>
  Claim C8. For every round index \<open>i\<close> and block index \<open>0 \<le> j \<le> 65535\<close>, \<open>hPers(i)\<close> is
  the 16 bytes \<open>"UA_F4Jumble_"\<close>, \<open>'H'\<close>, the byte \<open>i\<close>, 0, 0, and \<open>gPers(i, j)\<close> is the 16
  bytes \<open>"UA_F4Jumble_"\<close>, \<open>'G'\<close>, the byte \<open>i\<close>, the low byte of \<open>j\<close>, the high byte of
  \<open>j\<close>: the block index in 16 bits, little-endian. The byte \<open>i\<close> is \<open>uint8(i)\<close>, which
  is \<open>i\<close> itself for \<open>0 \<le> i \<le> 255\<close>.
\<close>

theorem personalization_tags:
  assumes j: "0 \<le> j" "j \<le> 65535"
  shows "hPers i = ascii ''UA_F4Jumble_'' @ [of_char CHR ''H'', word_of_int i, 0, 0]
    \<and> gPers i j = ascii ''UA_F4Jumble_'' @
        [of_char CHR ''G'', word_of_int i, word_of_int (j mod 256), word_of_int (j div 256)]
    \<and> length (hPers i) = 16 \<and> length (gPers i j) = 16
    \<and> uint (gPers i j ! 14) + 256 * uint (gPers i j ! 15) = j
    \<and> (0 \<le> i \<and> i \<le> 255 \<longrightarrow> uint (hPers i ! 13) = i \<and> uint (gPers i j ! 13) = i)"
proof -
  have hi: "drop_bit 8 j = j div 256" by (simp add: drop_bit_eq_div)
  have lo: "uint (word_of_int (j mod 256) :: byte) = j mod 256"
    by (rule uint_byte) simp_all
  have hi': "uint (word_of_int (j div 256) :: byte) = j div 256"
    using j by (intro uint_byte) simp_all
  have le: "uint (gPers i j ! 14) + 256 * uint (gPers i j ! 15) = j"
    by (simp add: gPers_def low_byte hi lo hi')
  have pre: "hPers i = ascii ''UA_F4Jumble_'' @ [of_char CHR ''H'', word_of_int i, 0, 0]"
    by (simp add: hPers_def ascii_def)
  have pre': "gPers i j = ascii ''UA_F4Jumble_'' @
        [of_char CHR ''G'', word_of_int i, word_of_int (j mod 256), word_of_int (j div 256)]"
    by (simp add: gPers_def ascii_def low_byte hi)
  have by13: "0 \<le> i \<and> i \<le> 255 \<longrightarrow> uint (hPers i ! 13) = i \<and> uint (gPers i j ! 13) = i"
    by (simp add: hPers_def gPers_def uint_byte)
  show ?thesis
    by (intro conjI pre pre' le by13 length_hPers length_gPers)
qed

theorem personalization_tags_witness:
  "(0::int) \<le> 300 \<and> (300::int) \<le> 65535
   \<and> hPers 1 = [85, 65, 95, 70, 52, 74, 117, 109, 98, 108, 101, 95, 72, 1, 0, 0]
   \<and> gPers 1 300 = [85, 65, 95, 70, 52, 74, 117, 109, 98, 108, 101, 95, 71, 1, 44, 1]"
  using personalization_tags [of 300 1] by (simp add: ascii_def)

section \<open>The known-answer test\<close>

text \<open>
  Whatever the primitive is, a successful run of \<open>F4Jumble\<close> is undone by
  \<open>F4JumbleInv\<close>: the inverse repeats the same four calls of the primitive on the same
  inputs. So \<open>F4Jumble\<close> never sends two messages to the same output.
\<close>

lemma xor_InrD:
  assumes "xor x y = Inr r"
  shows "length x \<le> length y" and "r = map2 (XOR) x y"
proof -
  show le: "length x \<le> length y"
  proof (rule ccontr)
    assume "\<not> length x \<le> length y"
    then have "xor x y = Inl IndexOutOfRange" by (simp add: xor_gt)
    with assms show False by simp
  qed
  show "r = map2 (XOR) x y" using assms xor_le [OF le] by simp
qed

lemma gRound_InrD:
  assumes "gRound h i u n = Inr g"
  shows "0 \<le> n" and "length g = nat n"
  using assms by (auto simp: gRound_def split: sum.splits if_splits)

lemma map2_xor_cancel_le:
  "length (x :: byte list) \<le> length y \<Longrightarrow> map2 (XOR) (map2 (XOR) x y) y = x"
proof (induction x arbitrary: y)
  case Nil
  show ?case by simp
next
  case (Cons a x)
  then show ?case by (cases y) (simp_all add: xor.assoc)
qed

lemma F4Jumble_run_InrD:
  assumes "F4Jumble_run h M = Inr s"
  defines "L \<equiv> min_int lenH (int (length M) sdiv 2)"
  defines "R \<equiv> int (length M) - L"
  shows "\<exists>g0 x h0 y g1 d h1 c.
      48 \<le> int (length M) \<and> int (length M) \<le> 4194368
    \<and> gRound h 0 (take (nat L) M) R = Inr g0
    \<and> xor (drop (nat L) M) g0 = Inr x
    \<and> hRound h 0 x L = Inr h0
    \<and> xor (take (nat L) M) h0 = Inr y
    \<and> gRound h 1 y R = Inr g1
    \<and> xor x g1 = Inr d
    \<and> hRound h 1 d L = Inr h1
    \<and> xor y h1 = Inr c
    \<and> v_c s = c \<and> v_d s = d"
  using assms(1) unfolding F4Jumble_run_def Let_def L_def R_def minLenM_def maxLenM_def
  by (auto split: if_splits sum.splits)

lemma F4Jumble_success_inverse:
  assumes "F4Jumble h M = Inr J"
  shows "F4JumbleInv h J = Inr M"
proof -
  define L where "L = min_int lenH (int (length M) sdiv 2)"
  define R where "R = int (length M) - L"
  obtain s where run: "F4Jumble_run h M = Inr s" and J: "J = v_c s @ v_d s"
    using assms by (auto simp: F4Jumble_def split: sum.splits)
  obtain g0 x h0 y g1 d h1 c where
    len: "48 \<le> int (length M)" "int (length M) \<le> 4194368"
    and g0: "gRound h 0 (take (nat L) M) R = Inr g0"
    and x: "xor (drop (nat L) M) g0 = Inr x"
    and h0: "hRound h 0 x L = Inr h0"
    and y: "xor (take (nat L) M) h0 = Inr y"
    and g1: "gRound h 1 y R = Inr g1"
    and d: "xor x g1 = Inr d"
    and h1: "hRound h 1 d L = Inr h1"
    and c: "xor y h1 = Inr c"
    and cd: "v_c s = c" "v_d s = d"
    using F4Jumble_run_InrD [OF run] unfolding L_def R_def by blast
  have Lb: "24 \<le> L" "L \<le> 64" "L \<le> R"
    using split_lengths(2-4) [OF len] by (simp_all add: L_def R_def)
  have la: "length (take (nat L) M) = nat L" and lb: "length (drop (nat L) M) = nat R"
    using Lb by (simp_all add: R_def)
  note X = xor_InrD [OF x] and Y = xor_InrD [OF y] and D = xor_InrD [OF d] and C = xor_InrD [OF c]
  have lg0: "length g0 = nat R" and lg1: "length g1 = nat R"
    using gRound_InrD(2) [OF g0] gRound_InrD(2) [OF g1] by simp_all
  have lb': "length M - nat L = nat R"
    using lb by simp
  have lx: "length x = nat R" unfolding X(2) by (simp add: lb' lg0)
  have la': "min (length M) (nat L) = nat L"
    using la by simp
  have ly: "length y = nat L" unfolding Y(2) using Y(1) by (simp add: la')
  have ld: "length d = nat R" unfolding D(2) by (simp add: lx lg1)
  have lc: "length c = nat L" unfolding C(2) using C(1) by (simp add: ly)
  have lJ: "int (length J) = int (length M)"
    using Lb by (simp add: J cd lc ld R_def)
  have LJ: "min_int lenH (int (length J) sdiv 2) = L" "int (length J) - L = R"
    by (simp_all add: lJ L_def R_def)
  have tJ: "take (nat L) J = c" "drop (nat L) J = d"
    by (simp_all add: J cd lc)
  have y': "xor c h1 = Inr y"
  proof -
    have "length c \<le> length h1" using C(1) by (simp add: lc ly)
    then have "xor c h1 = Inr (map2 (XOR) c h1)" by (rule xor_le)
    also have "map2 (XOR) c h1 = y" unfolding C(2) by (rule map2_xor_cancel_le [OF C(1)])
    finally show ?thesis .
  qed
  have x': "xor d g1 = Inr x"
  proof -
    have "length d \<le> length g1" by (simp add: ld lg1)
    then have "xor d g1 = Inr (map2 (XOR) d g1)" by (rule xor_le)
    also have "map2 (XOR) d g1 = x" unfolding D(2) by (rule map2_xor_cancel_le [OF D(1)])
    finally show ?thesis .
  qed
  have a': "xor y h0 = Inr (take (nat L) M)"
  proof -
    have "length y \<le> length h0" using Y(1) by (simp add: ly la')
    then have "xor y h0 = Inr (map2 (XOR) y h0)" by (rule xor_le)
    also have "map2 (XOR) y h0 = take (nat L) M" unfolding Y(2) by (rule map2_xor_cancel_le [OF Y(1)])
    finally show ?thesis .
  qed
  have b': "xor x g0 = Inr (drop (nat L) M)"
  proof -
    have "length x \<le> length g0" by (simp add: lx lg0)
    then have "xor x g0 = Inr (map2 (XOR) x g0)" by (rule xor_le)
    also have "map2 (XOR) x g0 = drop (nat L) M" unfolding X(2) by (rule map2_xor_cancel_le [OF X(1)])
    finally show ?thesis .
  qed
  have valid: "\<not> (int (length J) < minLenM \<or> int (length J) > maxLenM)"
    using len by (simp add: lJ minLenM_def maxLenM_def)
  have "F4JumbleInv_run h J =
      Inr \<lparr>v_lenM = int (length J), v_lenL = L, v_lenR = R, v_a = take (nat L) M,
           v_b = drop (nat L) M, v_c = c, v_d = d, v_g0 = g0, v_g1 = g1, v_h0 = h0,
           v_h1 = h1, v_x = x, v_y = y\<rparr>"
    unfolding F4JumbleInv_run_def Let_def LJ tJ using valid
    by (simp add: h1 y' g1 x' h0 a' g0 b')
  then show ?thesis by (simp add: F4JumbleInv_def)
qed

lemma gRound_one_block:
  assumes dg: "h (gPers i 0) 64 u = Inr dg" and n: "1 \<le> n" "n \<le> int (length dg)" "n \<le> 64"
  shows "gRound h i u n = Inr (take (nat n) dg)"
proof -
  have c: "ceilDiv n lenH = 1"
    using n ceilDiv_lenH [of n] by simp
  have in0: "inner h i u 0 = Inr dg"
    using dg by (simp add: inner_def lenH_def)
  have "gRound_loop h i u n 0 [] = gRound_loop h i u n 1 dg"
    by (subst gRound_loop.simps) (simp add: c in0)
  also have "\<dots> = Inr dg"
    by (subst gRound_loop.simps) (simp add: c)
  finally show ?thesis
    using n by (simp add: gRound_def)
qed

lemma kat_split:
  "length kat_src = 48" "length kat_jumbled = 48"
  "take 24 kat_src = kat_a" "drop 24 kat_src = kat_b"
  "take 24 kat_jumbled = kat_c" "drop 24 kat_jumbled = kat_d"
  "kat_c @ kat_d = kat_jumbled" "kat_a @ kat_b = kat_src"
  "length kat_g0 = 64" "length kat_g1 = 64"
  by (simp_all add: kat_src_def kat_jumbled_def kat_a_def kat_b_def kat_c_def kat_d_def
      kat_g0_def kat_g1_def)

lemma kat_lenL: "min_int lenH 24 = 24"
  by (simp add: min_int_def lenH_def)

text \<open>The four digests of the run, and the eight exclusive-ors, computed in the kernel.\<close>

lemma kat_G0: "blake2b (gPers 0 0) 64 kat_a = Inr kat_g0"
  by code_simp

lemma kat_H0: "blake2b (hPers 0) 24 kat_x = Inr kat_h0"
  by code_simp

lemma kat_G1: "blake2b (gPers 1 0) 64 kat_y = Inr kat_g1"
  by code_simp

lemma kat_H1: "blake2b (hPers 1) 24 kat_d = Inr kat_h1"
  by code_simp

lemma kat_xor:
  "xor kat_b (take 24 kat_g0) = Inr kat_x"
  "xor kat_a kat_h0 = Inr kat_y"
  "xor kat_x (take 24 kat_g1) = Inr kat_d"
  "xor kat_y kat_h1 = Inr kat_c"
  "xor kat_c kat_h1 = Inr kat_y"
  "xor kat_d (take 24 kat_g1) = Inr kat_x"
  "xor kat_y kat_h0 = Inr kat_a"
  "xor kat_x (take 24 kat_g0) = Inr kat_b"
  by code_simp+

lemma kat_chain:
  "F4Jumble blake2b kat_src = Inr kat_jumbled \<and> F4JumbleInv blake2b kat_jumbled = Inr kat_src"
proof -
  note G0 = kat_G0 and H0 = kat_H0 and G1 = kat_G1 and H1 = kat_H1 and X = kat_xor
  have g0: "gRound blake2b 0 kat_a 24 = Inr (take 24 kat_g0)"
    using gRound_one_block [of blake2b 0 kat_a kat_g0 24, OF G0] by (simp add: kat_split)
  have g1: "gRound blake2b 1 kat_y 24 = Inr (take 24 kat_g1)"
    using gRound_one_block [of blake2b 1 kat_y kat_g1 24, OF G1] by (simp add: kat_split)
  have h0: "hRound blake2b 0 kat_x 24 = Inr kat_h0"
    by (simp add: hRound_def H0)
  have h1: "hRound blake2b 1 kat_d 24 = Inr kat_h1"
    by (simp add: hRound_def H1)
  have "F4Jumble_run blake2b kat_src =
      Inr \<lparr>v_lenM = 48, v_lenL = 24, v_lenR = 24, v_a = kat_a, v_b = kat_b, v_c = kat_c,
           v_d = kat_d, v_g0 = take 24 kat_g0, v_g1 = take 24 kat_g1, v_h0 = kat_h0,
           v_h1 = kat_h1, v_x = kat_x, v_y = kat_y\<rparr>"
    by (simp add: F4Jumble_run_def Let_def minLenM_def maxLenM_def kat_split kat_lenL
        g0 g1 h0 h1 X)
  then have fwd: "F4Jumble blake2b kat_src = Inr kat_jumbled"
    by (simp add: F4Jumble_def kat_split)
  have "F4JumbleInv_run blake2b kat_jumbled =
      Inr \<lparr>v_lenM = 48, v_lenL = 24, v_lenR = 24, v_a = kat_a, v_b = kat_b, v_c = kat_c,
           v_d = kat_d, v_g0 = take 24 kat_g0, v_g1 = take 24 kat_g1, v_h0 = kat_h0,
           v_h1 = kat_h1, v_x = kat_x, v_y = kat_y\<rparr>"
    by (simp add: F4JumbleInv_run_def Let_def minLenM_def maxLenM_def kat_split kat_lenL
        g0 g1 h0 h1 X)
  then have "F4JumbleInv blake2b kat_jumbled = Inr kat_src"
    by (simp add: F4JumbleInv_def kat_split)
  with fwd show ?thesis by simp
qed

lemma kat_differ: "kat_spec_src \<noteq> kat_src"
  by (simp add: kat_spec_src_def kat_src_def)


text \<open>
  Claim C3 gives the input of the known-answer test with byte 25 equal to \<open>0xaa\<close>.
  On that input \<open>F4Jumble\<close> does not return the expected output: the expected output
  is the image of the input of the source's example, which has \<open>0xfa\<close> there.
\<close>

theorem known_answer_counterexample:
  "F4Jumble blake2b kat_spec_src \<noteq> Inr kat_jumbled"
proof
  assume "F4Jumble blake2b kat_spec_src = Inr kat_jumbled"
  then have "F4JumbleInv blake2b kat_jumbled = Inr kat_spec_src"
    by (rule F4Jumble_success_inverse)
  then have "kat_spec_src = kat_src"
    using kat_chain by simp
  then show False
    using kat_differ by simp
qed

text \<open>
  Claim C3, amended. \<open>F4Jumble\<close> applied to the 48-byte message
  \<open>5d7a8f739a2d9e945b0ce152a8049e294c4d6e66b164939daffa2ef6ee6921481cdd86b3cc4318d9614fc820905d042b\<close>
  (the input of the example in the source) returns exactly the 48-byte message
  \<open>0304d029141b995da5387c125970673504d6c764d91ea6c082123770c7139ccd88ee27368cd0c0921a0444c8e5858d22\<close>,
  and \<open>F4JumbleInv\<close> applied to that output returns that input.
\<close>

theorem known_answer:
  "F4Jumble blake2b kat_src = Inr kat_jumbled \<and> F4JumbleInv blake2b kat_jumbled = Inr kat_src"
  by (rule kat_chain)

end
